theory Spec2Isabelle
  imports Main "HOL-Library.Word" "HOL-Library.Signed_Division"
begin

unbundle bit_operations_syntax

section \<open>Values and the process boundary\<close>

text \<open>
  Memory cells and parameters are \<^verbatim>\<open>int64_t\<close>: 64-bit words, read as two's complement
  by \<open>sint\<close>. Arithmetic on them wraps around.

  Standard input is the list of the numbers that \<^verbatim>\<open>atoll\<close> finds on the lines still to
  be read; standard output is the list of what has been printed, the prompt \<^verbatim>\<open>"? "\<close> or
  a number on a line of its own.
\<close>

type_synonym int64 = "64 word"

datatype Printed = Prompt | Line int64

record World =
  stdin :: "int64 list"
  tty :: bool
  stdout :: "Printed list"

text \<open>\<^verbatim>\<open>input\<close>: the prompt when \<^verbatim>\<open>isatty\<close> holds, then one line; 0 when no line is left.\<close>

definition input :: "World \<Rightarrow> int64 \<times> World" where
  "input w =
     (let w1 = (if tty w then w\<lparr>stdout := stdout w @ [Prompt]\<rparr> else w)
      in case stdin w1 of
           [] \<Rightarrow> (0, w1)
         | v # rest \<Rightarrow> (v, w1\<lparr>stdin := rest\<rparr>))"

definition output' :: "int64 \<Rightarrow> World \<Rightarrow> World" where
  "output' val w = w\<lparr>stdout := stdout w @ [Line val]\<rparr>"

section \<open>The queue\<close>

text \<open>
  \<^verbatim>\<open>fifobuf\<close>, \<^verbatim>\<open>fifohead\<close> and \<^verbatim>\<open>fifotail\<close> are globals of the program: a ring buffer of
  \<^verbatim>\<open>FIFOSIZE\<close> cells, written at \<open>fifohead\<close> and read at \<open>fifotail\<close>.
\<close>

definition FIFOSIZE :: nat where
  "FIFOSIZE = 100"

record Fifo =
  fifobuf :: "int64 list"
  fifohead :: nat
  fifotail :: nat

definition fifopop :: "Fifo \<times> World \<Rightarrow> int64 \<times> Fifo \<times> World" where
  "fifopop fw =
     (case fw of (f, w) \<Rightarrow>
        if fifohead f = fifotail f
        then (case input w of (val, w') \<Rightarrow> (val, f, w'))
        else (fifobuf f ! fifotail f,
              f\<lparr>fifotail := (fifotail f + 1) mod FIFOSIZE\<rparr>, w))"

definition fifopush :: "int64 \<Rightarrow> Fifo \<times> World \<Rightarrow> Fifo \<times> World" where
  "fifopush val fw =
     (case fw of (f, w) \<Rightarrow>
        let nexthead = (fifohead f + 1) mod FIFOSIZE;
            w' = (if nexthead = fifotail f then output' val w else w)
        in (f\<lparr>fifobuf := (fifobuf f)[fifohead f := val], fifohead := nexthead\<rparr>, w'))"

text \<open>The state of the globals at program start: a zeroed buffer, both indices 0.\<close>

definition fifo_init :: Fifo where
  "fifo_init = \<lparr>fifobuf = replicate FIFOSIZE 0, fifohead = 0, fifotail = 0\<rparr>"

text \<open>
  What the ring buffer holds, oldest value first: the cells from \<open>fifotail\<close> up to, not
  including, \<open>fifohead\<close>, wrapping at \<open>FIFOSIZE\<close>.
\<close>

definition fifo_ok :: "Fifo \<Rightarrow> bool" where
  "fifo_ok f \<longleftrightarrow>
     length (fifobuf f) = FIFOSIZE \<and> fifohead f < FIFOSIZE \<and> fifotail f < FIFOSIZE"

definition queued :: "Fifo \<Rightarrow> int64 list" where
  "queued f =
     map (\<lambda>k. fifobuf f ! ((fifotail f + k) mod FIFOSIZE))
       [0 ..< (fifohead f + FIFOSIZE - fifotail f) mod FIFOSIZE]"

text \<open>Pushing a list of values one after the other, and popping \<open>n\<close> times.\<close>

fun pushes :: "int64 list \<Rightarrow> Fifo \<times> World \<Rightarrow> Fifo \<times> World" where
  "pushes [] fw = fw"
| "pushes (v # vs) fw = pushes vs (fifopush v fw)"

fun pops :: "nat \<Rightarrow> Fifo \<times> World \<Rightarrow> int64 list \<times> Fifo \<times> World" where
  "pops 0 fw = ([], fw)"
| "pops (Suc n) fw =
     (case fifopop fw of (v, fw') \<Rightarrow>
        (case pops n fw' of (vs, fw'') \<Rightarrow> (v # vs, fw'')))"


section \<open>The machine of \<^verbatim>\<open>intcode.c\<close>\<close>

text \<open>
  \<^verbatim>\<open>fatal(e)\<close> ends the process with exit code \<open>e\<close>: the result \<open>Inl e\<close>. The last
  value, \<open>UNDEFINED\<close>, is not an enumerator of the program and no exit code: it is the
  result of a call that leaves the rules of C (see \<^verbatim>\<open>setsize\<close>), after which nothing is
  known of the program.
\<close>

datatype ErrCode =
  ERR_OK | ERR_FILE_NOTFOUND | ERR_FILE_NOTCSV | ERR_FILE_INVALID | ERR_MEM_OUT
| ERR_IP_LO | ERR_IP_HI | ERR_IP_INSTR | ERR_PAR_READ | ERR_PAR_WRITE
| UNDEFINED

text \<open>
  The enumerators of \<^verbatim>\<open>OpCode\<close> and \<^verbatim>\<open>ParMode\<close>. An opcode is the number
  \<^verbatim>\<open>in % 100\<close>, which need not be one of the enumerators, so it stays a number.
\<close>

definition NOP :: int where "NOP = 0"
definition ADD :: int where "ADD = 1"
definition MUL :: int where "MUL = 2"
definition INP :: int where "INP = 3"
definition OUT :: int where "OUT = 4"
definition JNZ :: int where "JNZ = 5"
definition JPZ :: int where "JPZ = 6"
definition LT :: int where "LT = 7"
definition EQ :: int where "EQ = 8"
definition RBO :: int where "RBO = 9"
definition HLT :: int where "HLT = 99"

definition IMM :: int where "IMM = 1"
definition REL :: int where "REL = 2"

record Lang =
  opc :: int
  pc :: nat
  ic :: nat
  oc :: nat

definition lang :: "Lang list" where
  "lang =
    [\<lparr>opc = NOP, pc = 0, ic = 0, oc = 0\<rparr>,
     \<lparr>opc = ADD, pc = 3, ic = 2, oc = 1\<rparr>,
     \<lparr>opc = MUL, pc = 3, ic = 2, oc = 1\<rparr>,
     \<lparr>opc = INP, pc = 1, ic = 0, oc = 1\<rparr>,
     \<lparr>opc = OUT, pc = 1, ic = 1, oc = 0\<rparr>,
     \<lparr>opc = JNZ, pc = 2, ic = 2, oc = 0\<rparr>,
     \<lparr>opc = JPZ, pc = 2, ic = 2, oc = 0\<rparr>,
     \<lparr>opc = LT, pc = 3, ic = 2, oc = 1\<rparr>,
     \<lparr>opc = EQ, pc = 3, ic = 2, oc = 1\<rparr>,
     \<lparr>opc = RBO, pc = 1, ic = 1, oc = 0\<rparr>]"

definition langsize :: nat where
  "langsize = length lang"

text \<open>
  \<^verbatim>\<open>getdef\<close>: the comparison \<^verbatim>\<open>op >= langsize\<close> is unsigned, so a negative opcode
  is beyond the table as well.
\<close>

definition getdef :: "int \<Rightarrow> Lang" where
  "getdef opv =
     (if opv < 0 \<or> int langsize \<le> opv then lang ! nat NOP
      else if opc (lang ! nat opv) = opv then lang ! nat opv
      else (case find (\<lambda>d. opc d = opv) lang of
              Some d \<Rightarrow> d
            | None \<Rightarrow> lang ! nat NOP))"

text \<open>
  A machine: \<open>mem\<close> is the array \<^verbatim>\<open>pv->mem\<close> of \<^verbatim>\<open>pv->size\<close> cells, so the size of
  the machine is the length of the list. \<open>ip\<close> and \<open>base\<close> are \<^verbatim>\<open>ssize_t\<close>, 64 bits
  read as signed.
\<close>

record VirtualMachine =
  mem :: "int64 list"
  ip :: int64
  base :: int64
  halted :: bool

text \<open>\<^verbatim>\<open>clean\<close> frees the memory and zeroes the structure.\<close>

definition clean :: "VirtualMachine \<Rightarrow> VirtualMachine" where
  "clean pv = \<lparr>mem = [], ip = 0, base = 0, halted = False\<rparr>"

text \<open>
  \<^verbatim>\<open>realloc\<close> belongs to the C library: whether it grants a block of \<open>n\<close> cells, of 8
  bytes each, is the parameter \<open>al\<close>. A refused request is \<^verbatim>\<open>fatal(ERR_MEM_OUT)\<close>.
\<close>

type_synonym Alloc = "nat \<Rightarrow> bool"

text \<open>
  \<^verbatim>\<open>setsize\<close>: the count of bytes asked for, \<^verbatim>\<open>newsize * sizeof *(pv->mem)\<close>, is a product
  in \<^verbatim>\<open>size_t\<close>, taken to have 64 bits. From \<open>2 ^ 61\<close> cells on it wraps: the block asked
  for has \<open>newsize mod 2 ^ 61\<close> cells only, and when \<^verbatim>\<open>realloc\<close> grants it, \<^verbatim>\<open>memset\<close>
  writes beyond the block, or the machine is left with a size that its block does not
  have: the result \<open>UNDEFINED\<close>.
\<close>

definition setsize :: "Alloc \<Rightarrow> VirtualMachine \<Rightarrow> nat \<Rightarrow> ErrCode + VirtualMachine" where
  "setsize al pv newsize =
     (if newsize > length (mem pv)
      then (if \<not> al (newsize mod 2 ^ 61) then Inl ERR_MEM_OUT
            else if newsize < 2 ^ 61
            then Inr (pv\<lparr>mem := mem pv @ replicate (newsize - length (mem pv)) 0\<rparr>)
            else Inl UNDEFINED)
      else Inr pv)"

text \<open>\<^verbatim>\<open>addsize\<close>: the sum \<^verbatim>\<open>pv->size + (size_t)extra\<close> is one in \<^verbatim>\<open>size_t\<close>.\<close>

definition addsize :: "Alloc \<Rightarrow> VirtualMachine \<Rightarrow> int \<Rightarrow> ErrCode + VirtualMachine" where
  "addsize al pv extra =
     (if extra > 0 then setsize al pv ((length (mem pv) + nat extra) mod 2 ^ 64) else Inr pv)"

text \<open>
  \<^verbatim>\<open>copyvm\<close>: the destination keeps a size it already had beyond the source's; the
  source's cells are copied, the rest erased.
\<close>

definition copyvm :: "Alloc \<Rightarrow> VirtualMachine \<Rightarrow> VirtualMachine \<Rightarrow> ErrCode + VirtualMachine"
  where
  "copyvm al dst src =
     (case setsize al dst (length (mem src)) of
        Inl e \<Rightarrow> Inl e
      | Inr d \<Rightarrow>
          let m1 = mem src @ drop (length (mem src)) (mem d);
              m2 = (if length m1 > length (mem src)
                    then take (length (mem src)) m1 @
                         replicate (length m1 - length (mem src)) 0
                    else m1)
          in Inr (d\<lparr>mem := m2, ip := ip src, base := base src, halted := halted src\<rparr>))"

text \<open>
  The file that \<^verbatim>\<open>load\<close> reads, as far as the program looks at it: the count of its
  commas, and the numbers that the calls of \<^verbatim>\<open>fscanf\<close> deliver one after the other
  until one of them fails, each an \<^verbatim>\<open>int\<close>, taken to have 32 bits. How \<^verbatim>\<open>fscanf\<close> reads
  the text belongs to the C library. A file that cannot be opened is \<open>None\<close>.
\<close>

record File =
  commas :: nat
  numbers :: "32 word list"

text \<open>
  \<^verbatim>\<open>load\<close>: a file without a comma is refused; the machine is cleaned and sized to one
  cell more than there are commas; the numbers are stored in turn, each widened with
  its sign, for as long as there are cells and numbers; fewer numbers than cells is
  \<^verbatim>\<open>fatal(ERR_FILE_INVALID)\<close>.
\<close>

definition load :: "Alloc \<Rightarrow> VirtualMachine \<Rightarrow> File option \<Rightarrow> ErrCode + VirtualMachine" where
  "load al pv fl =
     (case fl of
        None \<Rightarrow> Inl ERR_FILE_NOTFOUND
      | Some f \<Rightarrow>
          if commas f = 0 then Inl ERR_FILE_NOTCSV
          else (case setsize al (clean pv) (commas f + 1) of
                  Inl e \<Rightarrow> Inl e
                | Inr pv' \<Rightarrow>
                    if length (numbers f) < length (mem pv') then Inl ERR_FILE_INVALID
                    else Inr (pv'\<lparr>mem := map scast (take (length (mem pv')) (numbers f))\<rparr>)))"

subsection \<open>One turn of the loop of \<^verbatim>\<open>run\<close>\<close>

text \<open>
  Fetch: the two checks of the instruction pointer, the instruction, its definition,
  and the check that the parameters are inside the memory. The instruction is kept as
  the signed number it is: \<^verbatim>\<open>%\<close> and \<^verbatim>\<open>/\<close> of C truncate towards zero (\<open>smod\<close>, \<open>sdiv\<close>).
\<close>

definition fetch :: "VirtualMachine \<Rightarrow> ErrCode + (int \<times> Lang \<times> VirtualMachine)" where
  "fetch pv =
     (if sint (ip pv) < 0 then Inl ERR_IP_LO
      else if unat (ip pv) \<ge> length (mem pv) then Inl ERR_IP_HI
      else
        let instr = sint (mem pv ! unat (ip pv));
            pv1 = pv\<lparr>ip := ip pv + 1\<rparr>;
            def = getdef (instr smod 100)
        in if pc def > 0 \<and> unat (ip pv1 + of_nat (pc def)) \<ge> length (mem pv1)
           then Inl ERR_IP_INSTR
           else Inr (instr, def, pv1))"

text \<open>
  One read parameter. \<open>modes\<close> is what is left of the instruction; its last digit is
  the mode, tested bit by bit as the code does.
\<close>

definition rdpar :: "Alloc \<Rightarrow> VirtualMachine \<Rightarrow> int \<Rightarrow> ErrCode + (int64 \<times> VirtualMachine)"
  where
  "rdpar al pv modes =
     (let q = mem pv ! unat (ip pv);
          pv1 = pv\<lparr>ip := ip pv + 1\<rparr>;
          mode = modes smod 10
      in if mode AND IMM = 0
         then
           let q' = (if mode AND REL \<noteq> 0 then q + base pv1 else q)
           in if sint q' < 0 then Inl ERR_PAR_READ
              else (case (if unat q' \<ge> length (mem pv1)
                          then setsize al pv1 (unat (q' + 1)) else Inr pv1) of
                      Inl e \<Rightarrow> Inl e
                    | Inr pv2 \<Rightarrow> Inr (mem pv2 ! unat q', pv2))
         else Inr (q, pv1))"

text \<open>The loop \<^verbatim>\<open>while (pc < def->ic)\<close>, \<open>n\<close> parameters still to read.\<close>

fun rdpars ::
  "Alloc \<Rightarrow> nat \<Rightarrow> VirtualMachine \<Rightarrow> int \<Rightarrow> ErrCode + (int64 list \<times> int \<times> VirtualMachine)"
  where
  "rdpars al 0 pv modes = Inr ([], modes, pv)"
| "rdpars al (Suc n) pv modes =
     (case rdpar al pv modes of
        Inl e \<Rightarrow> Inl e
      | Inr (q, pv') \<Rightarrow>
          (case rdpars al n pv' (modes sdiv 10) of
             Inl e \<Rightarrow> Inl e
           | Inr (qs, modes', pv'') \<Rightarrow> Inr (q # qs, modes', pv'')))"

text \<open>The write parameter: an address, never read through.\<close>

definition wrpar :: "Alloc \<Rightarrow> VirtualMachine \<Rightarrow> int \<Rightarrow> ErrCode + (int64 \<times> VirtualMachine)"
  where
  "wrpar al pv modes =
     (let q = mem pv ! unat (ip pv);
          pv1 = pv\<lparr>ip := ip pv + 1\<rparr>;
          mode = modes smod 10;
          q' = (if mode AND REL \<noteq> 0 then q + base pv1 else q)
      in if sint q' < 0 then Inl ERR_PAR_WRITE
         else (case (if unat q' \<ge> length (mem pv1)
                     then setsize al pv1 (unat (q' + 1)) else Inr pv1) of
                 Inl e \<Rightarrow> Inl e
               | Inr pv2 \<Rightarrow> Inr (q', pv2)))"

text \<open>
  The \<^verbatim>\<open>switch\<close>. The flag of the result says that \<^verbatim>\<open>run\<close> returns (after \<^verbatim>\<open>OUT\<close>).
\<close>

definition bool64 :: "bool \<Rightarrow> int64" where
  "bool64 b = (if b then 1 else 0)"

definition exec ::
  "int \<Rightarrow> int64 list \<Rightarrow> VirtualMachine \<times> Fifo \<times> World \<Rightarrow> bool \<times> VirtualMachine \<times> Fifo \<times> World"
  where
  "exec opv p s =
     (case s of (pv, f, w) \<Rightarrow>
        if opv = NOP then (False, pv, f, w)
        else if opv = ADD then (False, pv\<lparr>mem := (mem pv)[unat (p ! 2) := p ! 0 + p ! 1]\<rparr>, f, w)
        else if opv = MUL then (False, pv\<lparr>mem := (mem pv)[unat (p ! 2) := p ! 0 * p ! 1]\<rparr>, f, w)
        else if opv = INP then
          (case fifopop (f, w) of (val, f', w') \<Rightarrow>
             (False, pv\<lparr>mem := (mem pv)[unat (p ! 0) := val]\<rparr>, f', w'))
        else if opv = OUT then
          (case fifopush (p ! 0) (f, w) of (f', w') \<Rightarrow> (True, pv, f', w'))
        else if opv = JNZ then (False, if p ! 0 \<noteq> 0 then pv\<lparr>ip := p ! 1\<rparr> else pv, f, w)
        else if opv = JPZ then (False, if p ! 0 = 0 then pv\<lparr>ip := p ! 1\<rparr> else pv, f, w)
        else if opv = LT then
          (False, pv\<lparr>mem := (mem pv)[unat (p ! 2) := bool64 (sint (p ! 0) < sint (p ! 1))]\<rparr>, f, w)
        else if opv = EQ then
          (False, pv\<lparr>mem := (mem pv)[unat (p ! 2) := bool64 (p ! 0 = p ! 1)]\<rparr>, f, w)
        else if opv = RBO then (False, pv\<lparr>base := base pv + p ! 0\<rparr>, f, w)
        else if opv = HLT then (False, pv\<lparr>halted := True\<rparr>, f, w)
        else (False, pv, f, w))"

text \<open>\<^verbatim>\<open>if (def->oc)\<close>: the write parameter, when the instruction has one.\<close>

definition wrpars ::
  "Alloc \<Rightarrow> nat \<Rightarrow> VirtualMachine \<Rightarrow> int \<Rightarrow> ErrCode + (int64 list \<times> VirtualMachine)"
  where
  "wrpars al n pv modes =
     (if n \<noteq> 0
      then (case wrpar al pv modes of
              Inl e \<Rightarrow> Inl e
            | Inr (q, pv') \<Rightarrow> Inr ([q], pv'))
      else Inr ([], pv))"

definition step ::
  "Alloc \<Rightarrow> VirtualMachine \<times> Fifo \<times> World \<Rightarrow>
     ErrCode + (bool \<times> VirtualMachine \<times> Fifo \<times> World)"
  where
  "step al s =
     (case s of (pv, f, w) \<Rightarrow>
        (case fetch pv of
           Inl e \<Rightarrow> Inl e
         | Inr (instr, def, pv1) \<Rightarrow>
             (case rdpars al (ic def) pv1 (instr sdiv 100) of
                Inl e \<Rightarrow> Inl e
              | Inr (ps, modes, pv2) \<Rightarrow>
                  (case wrpars al (oc def) pv2 modes of
                     Inl e \<Rightarrow> Inl e
                   | Inr (qs, pv3) \<Rightarrow> Inr (exec (instr smod 100) (ps @ qs) (pv3, f, w))))))"

text \<open>
  \<^verbatim>\<open>run\<close>: the loop may go on for ever, which is the value \<open>None\<close>. It ends when the
  machine is halted, after an output, or with a fatal error.
\<close>

partial_function (option) run ::
  "Alloc \<Rightarrow> VirtualMachine \<times> Fifo \<times> World \<Rightarrow> (ErrCode + VirtualMachine \<times> Fifo \<times> World) option"
  where
  "run al s =
     (if halted (fst s) then Some (Inr s)
      else (case step al s of
              Inl e \<Rightarrow> Some (Inl e)
            | Inr (ret, s') \<Rightarrow> if ret then Some (Inr s') else run al s'))"

text \<open>
  The address a positional or relative parameter refers to: the cell at the
  instruction pointer, offset by the relative base when the mode has the bit \<open>REL\<close>.
\<close>

definition par_address :: "VirtualMachine \<Rightarrow> int \<Rightarrow> int64" where
  "par_address pv modes =
     (let q = mem pv ! unat (ip pv)
      in if (modes smod 10) AND REL \<noteq> 0 then q + base pv else q)"

section \<open>Permutations and the amplifier chain of \<^verbatim>\<open>intcode.c\<close>\<close>

definition STAGES :: nat where
  "STAGES = 5"

text \<open>
  \<^verbatim>\<open>next_perm(a, n)\<close>: the array is the list, \<open>n\<close> its length (\<^verbatim>\<open>STAGES\<close> at every
  call; the C code needs \<open>n \<ge> 1\<close>). The three loops are three functions; the result is
  the returned flag and the array as the call leaves it.
\<close>

fun next_perm_k :: "int list \<Rightarrow> nat \<Rightarrow> nat" where
  "next_perm_k a 0 = 0"
| "next_perm_k a (Suc k) = (if a ! k \<ge> a ! Suc k then next_perm_k a k else Suc k)"

fun next_perm_l :: "int list \<Rightarrow> nat \<Rightarrow> nat \<Rightarrow> nat" where
  "next_perm_l a k 0 = 0"
| "next_perm_l a k (Suc l) = (if a ! Suc l \<le> a ! k then next_perm_l a k l else Suc l)"

definition swap :: "int list \<Rightarrow> nat \<Rightarrow> nat \<Rightarrow> int list" where
  "swap a k l = a[k := a ! l, l := a ! k]"

function next_perm_rev :: "int list \<Rightarrow> nat \<Rightarrow> nat \<Rightarrow> int list" where
  "next_perm_rev a k l = (if l > k then next_perm_rev (swap a k l) (k + 1) (l - 1) else a)"
  by pat_completeness auto
termination
  by (relation "measure (\<lambda>(a, k, l). l - k)") auto

definition next_perm :: "int list \<Rightarrow> bool \<times> int list" where
  "next_perm a =
     (let n = length a;
          k = next_perm_k a (n - 1)
      in if k = 0 then (False, a)
         else
           let k' = k - 1;
               l = next_perm_l a k' (n - 1);
               a1 = swap a k' l
           in (True, next_perm_rev a1 (k' + 1) (n - 1)))"

text \<open>
  The \<^verbatim>\<open>do ... while (next_perm(phase, STAGES))\<close> of \<^verbatim>\<open>maxamp\<close>, with the body of the
  loop up to the value \<open>a\<close> it compares as the parameter \<open>tr\<close>. A body that does not
  return, or a fatal error, ends the search.
\<close>

partial_function (option) perm_loop ::
  "(int list \<Rightarrow> 's \<Rightarrow> ('e + int64 \<times> 's) option) \<Rightarrow> int list \<times> int64 \<times> 's \<Rightarrow>
     ('e + int64 \<times> 's) option"
  where
  "perm_loop tr x =
     (case x of (phases, amax, s) \<Rightarrow>
        (case tr phases s of
           None \<Rightarrow> None
         | Some (Inl e) \<Rightarrow> Some (Inl e)
         | Some (Inr (a, s')) \<Rightarrow>
             let amax' = (if sint a > sint amax then a else amax)
             in (case next_perm phases of
                   (again, phases') \<Rightarrow>
                     if again then perm_loop tr (phases', amax', s')
                     else Some (Inr (amax', s')))))"

text \<open>Initial phase numbers: 0-4 for part 1, 5-9 for part 2.\<close>

definition init_phase :: "int \<Rightarrow> int list" where
  "init_phase part = map (\<lambda>i. int STAGES * (part - 1) + int i) [0 ..< STAGES]"

text \<open>Every permutation starts with fresh amplifiers: each is copied from the reference.\<close>

fun copy_all :: "Alloc \<Rightarrow> VirtualMachine list \<Rightarrow> VirtualMachine \<Rightarrow> ErrCode + VirtualMachine list"
  where
  "copy_all al [] ref = Inr []"
| "copy_all al (v # vs) ref =
     (case copyvm al v ref of
        Inl e \<Rightarrow> Inl e
      | Inr v' \<Rightarrow>
          (case copy_all al vs ref of
             Inl e \<Rightarrow> Inl e
           | Inr vs' \<Rightarrow> Inr (v' # vs')))"

text \<open>
  The first run: each stage is given its phase and the value \<open>a\<close>, runs, and the next
  \<open>a\<close> is popped from the queue.
\<close>

fun first_round ::
  "Alloc \<Rightarrow> (int \<times> VirtualMachine) list \<Rightarrow> int64 \<Rightarrow> Fifo \<times> World \<Rightarrow>
     (ErrCode + int64 \<times> VirtualMachine list \<times> Fifo \<times> World) option"
  where
  "first_round al [] a fw = Some (Inr (a, [], fw))"
| "first_round al ((ph, v) # pvs) a fw =
     (case run al (v, fifopush a (fifopush (word_of_int ph) fw)) of
        None \<Rightarrow> None
      | Some (Inl e) \<Rightarrow> Some (Inl e)
      | Some (Inr (v', fw1)) \<Rightarrow>
          (case fifopop fw1 of
             (a', fw2) \<Rightarrow>
               (case first_round al pvs a' fw2 of
                  None \<Rightarrow> None
                | Some (Inl e) \<Rightarrow> Some (Inl e)
                | Some (Inr (r, vs', fw3)) \<Rightarrow> Some (Inr (r, v' # vs', fw3)))))"

text \<open>Multiple runs until halted: \<^verbatim>\<open>while (!vm[i].halted) { run(&vm[i++]); i %= STAGES; }\<close>.\<close>

partial_function (option) feedback ::
  "Alloc \<Rightarrow> nat \<times> VirtualMachine list \<times> Fifo \<times> World \<Rightarrow>
     (ErrCode + VirtualMachine list \<times> Fifo \<times> World) option"
  where
  "feedback al x =
     (case x of (i, vms, fw) \<Rightarrow>
        if halted (vms ! i) then Some (Inr (vms, fw))
        else (case run al (vms ! i, fw) of
                None \<Rightarrow> None
              | Some (Inl e) \<Rightarrow> Some (Inl e)
              | Some (Inr (v', fw')) \<Rightarrow> feedback al ((i + 1) mod STAGES, vms[i := v'], fw')))"

text \<open>
  The body of the loop of \<^verbatim>\<open>maxamp\<close> for one permutation. The state is the amplifiers
  \<^verbatim>\<open>vm[0..STAGES-1]\<close>, the queue and the world; \<open>ref\<close> is \<^verbatim>\<open>vm[STAGES]\<close>.
\<close>

definition trial ::
  "Alloc \<Rightarrow> int \<Rightarrow> VirtualMachine \<Rightarrow> int list \<Rightarrow> VirtualMachine list \<times> Fifo \<times> World \<Rightarrow>
     (ErrCode + int64 \<times> VirtualMachine list \<times> Fifo \<times> World) option"
  where
  "trial al part ref phases s =
     (case s of (vms, fw) \<Rightarrow>
        (case copy_all al vms ref of
           Inl e \<Rightarrow> Some (Inl e)
         | Inr vms1 \<Rightarrow>
             (case first_round al (zip phases vms1) 0 fw of
                None \<Rightarrow> None
              | Some (Inl e) \<Rightarrow> Some (Inl e)
              | Some (Inr (a, vms2, fw2)) \<Rightarrow>
                  if part = 2
                  then (case feedback al (0, vms2, fifopush a fw2) of
                          None \<Rightarrow> None
                        | Some (Inl e) \<Rightarrow> Some (Inl e)
                        | Some (Inr (vms3, fw3)) \<Rightarrow>
                            (case fifopop fw3 of (a', fw4) \<Rightarrow> Some (Inr (a', vms3, fw4))))
                  else Some (Inr (a, vms2, fw2)))))"

definition maxamp ::
  "Alloc \<Rightarrow> int \<Rightarrow> VirtualMachine \<Rightarrow> VirtualMachine list \<times> Fifo \<times> World \<Rightarrow>
     (ErrCode + int64 \<times> VirtualMachine list \<times> Fifo \<times> World) option"
  where
  "maxamp al part ref s = perm_loop (trial al part ref) (init_phase part, - 1, s)"

section \<open>The amplifier program (the variant with \<^verbatim>\<open>reset\<close> and \<^verbatim>\<open>amplify\<close>)\<close>

text \<open>
  This program has no bounds checks: an access outside the \<^verbatim>\<open>size\<close> cells of a machine
  is undefined behaviour, the result \<open>Inl Undefined\<close>. Its own failures leave with
  \<^verbatim>\<open>exit(n)\<close>.
\<close>

datatype AmpFault = Exit nat | Undefined

definition POS :: int where "POS = 0"

record AmpMachine = VirtualMachine +
  phase :: int
  phased :: bool

definition bindE :: "'e + 'a \<Rightarrow> ('a \<Rightarrow> 'e + 'b) \<Rightarrow> 'e + 'b" where
  "bindE m k = (case m of Inl e \<Rightarrow> Inl e | Inr x \<Rightarrow> k x)"

text \<open>\<^verbatim>\<open>pvm->mem[i]\<close>, read and written, with a signed index.\<close>

definition amp_rd :: "int64 list \<Rightarrow> int64 \<Rightarrow> AmpFault + int64" where
  "amp_rd m i = (if 0 \<le> sint i \<and> nat (sint i) < length m then Inr (m ! nat (sint i))
                 else Inl Undefined)"

definition amp_wr :: "int64 list \<Rightarrow> int64 \<Rightarrow> int64 \<Rightarrow> AmpFault + int64 list" where
  "amp_wr m i v = (if 0 \<le> sint i \<and> nat (sint i) < length m then Inr (m[nat (sint i) := v])
                   else Inl Undefined)"

text \<open>
  \<^verbatim>\<open>reset\<close>: \<open>code\<close> is the global program of \<^verbatim>\<open>codesize\<close> numbers. The size becomes
  \<^verbatim>\<open>codesize\<close> whatever it was, and the cells are the program's.
\<close>

definition amp_reset :: "Alloc \<Rightarrow> int64 list \<Rightarrow> AmpMachine \<Rightarrow> int \<Rightarrow> AmpFault + AmpMachine"
  where
  "amp_reset al code pvm ph =
     (if length (mem pvm) < length code \<and> \<not> al (length code) then Inl (Exit 4)
      else Inr (pvm\<lparr>mem := code, ip := 0, base := 0, halted := False,
                    phase := ph, phased := False\<rparr>))"

text \<open>\<^verbatim>\<open>grow\<close> is defined in the program and never called.\<close>

definition amp_grow :: "Alloc \<Rightarrow> AmpMachine \<Rightarrow> nat \<Rightarrow> AmpFault + AmpMachine" where
  "amp_grow al pvm extra =
     (if extra > 0
      then (if \<not> al (length (mem pvm) + extra) then Inl (Exit 5)
            else Inr (pvm\<lparr>mem := mem pvm @ replicate extra 0\<rparr>))
      else Inr pvm)"

definition amp_def :: "int \<Rightarrow> Lang" where
  "amp_def opv = (if 0 \<le> opv \<and> opv < int langsize then lang ! nat opv else lang ! nat NOP)"

definition amp_rdpar :: "AmpMachine \<Rightarrow> int \<Rightarrow> AmpFault + (int64 \<times> AmpMachine)" where
  "amp_rdpar pvm modes =
     (let mode = modes smod 10
      in bindE (amp_rd (mem pvm) (ip pvm)) (\<lambda>par.
           let pvm1 = pvm\<lparr>ip := ip pvm + 1\<rparr>
           in if mode = REL
              then bindE (amp_rd (mem pvm1) (par + base pvm1)) (\<lambda>v. Inr (v, pvm1))
              else if mode = POS
              then bindE (amp_rd (mem pvm1) par) (\<lambda>v. Inr (v, pvm1))
              else Inr (par, pvm1)))"

fun amp_rdpars ::
  "nat \<Rightarrow> AmpMachine \<Rightarrow> int \<Rightarrow> AmpFault + (int64 list \<times> int \<times> AmpMachine)"
  where
  "amp_rdpars 0 pvm modes = Inr ([], modes, pvm)"
| "amp_rdpars (Suc n) pvm modes =
     bindE (amp_rdpar pvm modes) (\<lambda>(q, pvm').
       bindE (amp_rdpars n pvm' (modes sdiv 10)) (\<lambda>(qs, modes', pvm'').
         Inr (q # qs, modes', pvm'')))"

definition amp_wrpar :: "AmpMachine \<Rightarrow> int \<Rightarrow> AmpFault + (int64 \<times> AmpMachine)" where
  "amp_wrpar pvm modes =
     bindE (amp_rd (mem pvm) (ip pvm)) (\<lambda>par.
       let pvm1 = pvm\<lparr>ip := ip pvm + 1\<rparr>
       in Inr (if modes smod 10 = REL then par + base pvm1 else par, pvm1))"

definition amp_wrpars :: "nat \<Rightarrow> AmpMachine \<Rightarrow> int \<Rightarrow> AmpFault + (int64 list \<times> AmpMachine)"
  where
  "amp_wrpars n pvm modes =
     (if n \<noteq> 0
      then bindE (amp_wrpar pvm modes) (\<lambda>(q, pvm'). Inr ([q], pvm'))
      else Inr ([], pvm))"

text \<open>
  The \<^verbatim>\<open>switch\<close> of this program. The state carries the local \<open>emptyq\<close>; the first
  component of the result is the value \<^verbatim>\<open>run\<close> returns at an output, if it does.
\<close>

definition amp_exec ::
  "int \<Rightarrow> int64 list \<Rightarrow> int64 \<Rightarrow> AmpMachine \<times> bool \<times> World \<Rightarrow>
     AmpFault + (int64 option \<times> AmpMachine \<times> bool \<times> World)"
  where
  "amp_exec opv p inputval s =
     (case s of (pvm, emptyq, w) \<Rightarrow>
        if opv = NOP then Inr (None, pvm, emptyq, w)
        else if opv = ADD then
          bindE (amp_wr (mem pvm) (p ! 2) (p ! 0 + p ! 1)) (\<lambda>m.
            Inr (None, pvm\<lparr>mem := m\<rparr>, emptyq, w))
        else if opv = MUL then
          bindE (amp_wr (mem pvm) (p ! 2) (p ! 0 * p ! 1)) (\<lambda>m.
            Inr (None, pvm\<lparr>mem := m\<rparr>, emptyq, w))
        else if opv = INP then
          (case (if phased pvm
                 then (if emptyq then input w else (inputval, w))
                 else (word_of_int (phase pvm), w)) of
             (val, w') \<Rightarrow>
               bindE (amp_wr (mem pvm) (p ! 0) val) (\<lambda>m.
                 Inr (None, pvm\<lparr>mem := m, phased := True\<rparr>, phased pvm, w')))
        else if opv = OUT then Inr (Some (p ! 0), pvm, emptyq, w)
        else if opv = JNZ then
          Inr (None, if p ! 0 \<noteq> 0 then pvm\<lparr>ip := p ! 1\<rparr> else pvm, emptyq, w)
        else if opv = JPZ then
          Inr (None, if p ! 0 = 0 then pvm\<lparr>ip := p ! 1\<rparr> else pvm, emptyq, w)
        else if opv = LT then
          bindE (amp_wr (mem pvm) (p ! 2) (bool64 (sint (p ! 0) < sint (p ! 1)))) (\<lambda>m.
            Inr (None, pvm\<lparr>mem := m\<rparr>, emptyq, w))
        else if opv = EQ then
          bindE (amp_wr (mem pvm) (p ! 2) (bool64 (p ! 0 = p ! 1))) (\<lambda>m.
            Inr (None, pvm\<lparr>mem := m\<rparr>, emptyq, w))
        else if opv = RBO then Inr (None, pvm\<lparr>base := base pvm + p ! 0\<rparr>, emptyq, w)
        else if opv = HLT then Inr (None, pvm\<lparr>halted := True\<rparr>, emptyq, w)
        else Inr (None, pvm, emptyq, w))"

definition amp_step ::
  "int64 \<Rightarrow> AmpMachine \<times> bool \<times> World \<Rightarrow>
     AmpFault + (int64 option \<times> AmpMachine \<times> bool \<times> World)"
  where
  "amp_step inputval s =
     (case s of (pvm, emptyq, w) \<Rightarrow>
        bindE (amp_rd (mem pvm) (ip pvm)) (\<lambda>cell.
          let instr = sint cell;
              pvm1 = pvm\<lparr>ip := ip pvm + 1\<rparr>;
              def = amp_def (instr smod 100)
          in bindE (amp_rdpars (ic def) pvm1 (instr sdiv 100)) (\<lambda>(ps, modes, pvm2).
               bindE (amp_wrpars (oc def) pvm2 modes) (\<lambda>(qs, pvm3).
                 amp_exec (instr smod 100) (ps @ qs) inputval (pvm3, emptyq, w)))))"

partial_function (option) amp_loop ::
  "int64 \<Rightarrow> AmpMachine \<times> bool \<times> World \<Rightarrow> (AmpFault + int64 \<times> AmpMachine \<times> World) option"
  where
  "amp_loop inputval s =
     (case s of (pvm, emptyq, w) \<Rightarrow>
        if halted pvm then Some (Inr (inputval, pvm, w))
        else (case amp_step inputval s of
                Inl e \<Rightarrow> Some (Inl e)
              | Inr (Some val, pvm', emptyq', w') \<Rightarrow> Some (Inr (val, pvm', w'))
              | Inr (None, s') \<Rightarrow> amp_loop inputval s'))"

text \<open>\<^verbatim>\<open>run(pvm, inputval)\<close>: the loop, entered with \<open>emptyq = false\<close>.\<close>

definition amp_run ::
  "AmpMachine \<Rightarrow> int64 \<Rightarrow> World \<Rightarrow> (AmpFault + int64 \<times> AmpMachine \<times> World) option"
  where
  "amp_run pvm inputval w = amp_loop inputval (pvm, False, w)"

fun amplify ::
  "AmpMachine list \<Rightarrow> int64 \<Rightarrow> World \<Rightarrow> (AmpFault + int64 \<times> AmpMachine list \<times> World) option"
  where
  "amplify [] val w = Some (Inr (val, [], w))"
| "amplify (v # vs) val w =
     (case amp_run v val w of
        None \<Rightarrow> None
      | Some (Inl e) \<Rightarrow> Some (Inl e)
      | Some (Inr (val', v', w')) \<Rightarrow>
          (case amplify vs val' w' of
             None \<Rightarrow> None
           | Some (Inl e) \<Rightarrow> Some (Inl e)
           | Some (Inr (r, vs', w'')) \<Rightarrow> Some (Inr (r, v' # vs', w''))))"

text \<open>\<^verbatim>\<open>while (!vm[STAGES - 1].halted) a = amplify(a);\<close>\<close>

partial_function (option) amp_feedback ::
  "int64 \<times> AmpMachine list \<times> World \<Rightarrow> (AmpFault + int64 \<times> AmpMachine list \<times> World) option"
  where
  "amp_feedback x =
     (case x of (a, vms, w) \<Rightarrow>
        if halted (vms ! (STAGES - 1)) then Some (Inr (a, vms, w))
        else (case amplify vms a w of
                None \<Rightarrow> None
              | Some (Inl e) \<Rightarrow> Some (Inl e)
              | Some (Inr x') \<Rightarrow> amp_feedback x'))"

fun reset_all ::
  "Alloc \<Rightarrow> int64 list \<Rightarrow> (int \<times> AmpMachine) list \<Rightarrow> AmpFault + AmpMachine list"
  where
  "reset_all al code [] = Inr []"
| "reset_all al code ((ph, v) # pvs) =
     bindE (amp_reset al code v ph) (\<lambda>v'.
       bindE (reset_all al code pvs) (\<lambda>vs'. Inr (v' # vs')))"

definition amp_trial ::
  "Alloc \<Rightarrow> int64 list \<Rightarrow> int \<Rightarrow> int list \<Rightarrow> AmpMachine list \<times> World \<Rightarrow>
     (AmpFault + int64 \<times> AmpMachine list \<times> World) option"
  where
  "amp_trial al code part phases s =
     (case s of (vms, w) \<Rightarrow>
        (case reset_all al code (zip phases vms) of
           Inl e \<Rightarrow> Some (Inl e)
         | Inr vms1 \<Rightarrow>
             (case amplify vms1 0 w of
                None \<Rightarrow> None
              | Some (Inl e) \<Rightarrow> Some (Inl e)
              | Some (Inr x) \<Rightarrow> if part = 2 then amp_feedback x else Some (Inr x))))"

definition amp_maxamp ::
  "Alloc \<Rightarrow> int64 list \<Rightarrow> int \<Rightarrow> AmpMachine list \<times> World \<Rightarrow>
     (AmpFault + int64 \<times> AmpMachine list \<times> World) option"
  where
  "amp_maxamp al code part s = perm_loop (amp_trial al code part) (init_phase part, - 1, s)"

section \<open>Operands as the specification describes them\<close>

text \<open>
  The value of a read operand and the address of a write target, by addressing mode:
  immediate is the cell itself; positional reads the memory at the cell's value;
  relative adds the relative base to the address first. Memory that was never
  allocated reads as zero.
\<close>

definition spec_operand :: "'a VirtualMachine_scheme \<Rightarrow> int \<Rightarrow> int64 \<Rightarrow> int64" where
  "spec_operand pv m raw =
     (if m = IMM then raw
      else let a = (if m = REL then raw + base pv else raw)
           in if unat a < length (mem pv) then mem pv ! unat a else 0)"

definition spec_target :: "'a VirtualMachine_scheme \<Rightarrow> int \<Rightarrow> int64 \<Rightarrow> int64" where
  "spec_target pv m raw = (if m = REL then raw + base pv else raw)"

text \<open>
  Decoding: the opcode is the instruction modulo 100; the mode digits are taken one
  decimal digit at a time from the instruction divided by 100, the lowest digit for the
  first parameter.
\<close>

definition spec_decode :: "'a VirtualMachine_scheme \<Rightarrow> int \<Rightarrow> int \<Rightarrow> int \<Rightarrow> int \<Rightarrow> bool" where
  "spec_decode pv opv m1 m2 m3 \<longleftrightarrow>
     (let instr = sint (mem pv ! unat (ip pv))
      in instr smod 100 = opv
         \<and> (instr sdiv 100) smod 10 = m1
         \<and> (instr sdiv 100 sdiv 10) smod 10 = m2
         \<and> (instr sdiv 100 sdiv 10 sdiv 10) smod 10 = m3)"

section \<open>Describing the search\<close>

text \<open>
  The permutations \<^verbatim>\<open>next_perm\<close> goes through from a given one, up to and including
  the one at which it returns 0; \<open>None\<close> when the \<open>n\<close> steps allowed do not reach it.
\<close>

fun perm_seq :: "nat \<Rightarrow> int list \<Rightarrow> int list list option" where
  "perm_seq 0 a = None"
| "perm_seq (Suc n) a =
     (case next_perm a of
        (again, a') \<Rightarrow>
          if again then map_option (\<lambda>ps. a # ps) (perm_seq n a') else Some [a])"

text \<open>
  The body of the loop run for each permutation of a list in turn, each from the state
  the one before left; the results in the same order.
\<close>

fun trials ::
  "(int list \<Rightarrow> 's \<Rightarrow> ('e + int64 \<times> 's) option) \<Rightarrow> int list list \<Rightarrow> 's \<Rightarrow>
     ('e + int64 list \<times> 's) option"
  where
  "trials tr [] s = Some (Inr ([], s))"
| "trials tr (p # ps) s =
     (case tr p s of
        None \<Rightarrow> None
      | Some (Inl e) \<Rightarrow> Some (Inl e)
      | Some (Inr (a, s')) \<Rightarrow>
          (case trials tr ps s' of
             None \<Rightarrow> None
           | Some (Inl e) \<Rightarrow> Some (Inl e)
           | Some (Inr (as, s'')) \<Rightarrow> Some (Inr (a # as, s''))))"

text \<open>The lexicographic order on lists of numbers.\<close>

definition lex_less :: "int list \<Rightarrow> int list \<Rightarrow> bool" where
  "lex_less xs ys \<longleftrightarrow> (xs, ys) \<in> lexord {(x, y). x < y}"

text \<open>\<^verbatim>\<open>if (a > amax) amax = a;\<close>\<close>

definition keep_max :: "int64 \<Rightarrow> int64 \<Rightarrow> int64" where
  "keep_max amax a = (if sint a > sint amax then a else amax)"

text \<open>What the search reports for a list of results: the largest, and at least \<open>- 1\<close>.\<close>

definition reported :: "int64 list \<Rightarrow> int64" where
  "reported as = word_of_int (Max (insert (- 1) (sint ` set as)))"

text \<open>The 120 arrangements of the numbers 0 to 4, in lexicographic order.\<close>

definition arrangements5 :: "int list list" where
  "arrangements5 =
    [[0, 1, 2, 3, 4], [0, 1, 2, 4, 3], [0, 1, 3, 2, 4], [0, 1, 3, 4, 2],
     [0, 1, 4, 2, 3], [0, 1, 4, 3, 2], [0, 2, 1, 3, 4], [0, 2, 1, 4, 3],
     [0, 2, 3, 1, 4], [0, 2, 3, 4, 1], [0, 2, 4, 1, 3], [0, 2, 4, 3, 1],
     [0, 3, 1, 2, 4], [0, 3, 1, 4, 2], [0, 3, 2, 1, 4], [0, 3, 2, 4, 1],
     [0, 3, 4, 1, 2], [0, 3, 4, 2, 1], [0, 4, 1, 2, 3], [0, 4, 1, 3, 2],
     [0, 4, 2, 1, 3], [0, 4, 2, 3, 1], [0, 4, 3, 1, 2], [0, 4, 3, 2, 1],
     [1, 0, 2, 3, 4], [1, 0, 2, 4, 3], [1, 0, 3, 2, 4], [1, 0, 3, 4, 2],
     [1, 0, 4, 2, 3], [1, 0, 4, 3, 2], [1, 2, 0, 3, 4], [1, 2, 0, 4, 3],
     [1, 2, 3, 0, 4], [1, 2, 3, 4, 0], [1, 2, 4, 0, 3], [1, 2, 4, 3, 0],
     [1, 3, 0, 2, 4], [1, 3, 0, 4, 2], [1, 3, 2, 0, 4], [1, 3, 2, 4, 0],
     [1, 3, 4, 0, 2], [1, 3, 4, 2, 0], [1, 4, 0, 2, 3], [1, 4, 0, 3, 2],
     [1, 4, 2, 0, 3], [1, 4, 2, 3, 0], [1, 4, 3, 0, 2], [1, 4, 3, 2, 0],
     [2, 0, 1, 3, 4], [2, 0, 1, 4, 3], [2, 0, 3, 1, 4], [2, 0, 3, 4, 1],
     [2, 0, 4, 1, 3], [2, 0, 4, 3, 1], [2, 1, 0, 3, 4], [2, 1, 0, 4, 3],
     [2, 1, 3, 0, 4], [2, 1, 3, 4, 0], [2, 1, 4, 0, 3], [2, 1, 4, 3, 0],
     [2, 3, 0, 1, 4], [2, 3, 0, 4, 1], [2, 3, 1, 0, 4], [2, 3, 1, 4, 0],
     [2, 3, 4, 0, 1], [2, 3, 4, 1, 0], [2, 4, 0, 1, 3], [2, 4, 0, 3, 1],
     [2, 4, 1, 0, 3], [2, 4, 1, 3, 0], [2, 4, 3, 0, 1], [2, 4, 3, 1, 0],
     [3, 0, 1, 2, 4], [3, 0, 1, 4, 2], [3, 0, 2, 1, 4], [3, 0, 2, 4, 1],
     [3, 0, 4, 1, 2], [3, 0, 4, 2, 1], [3, 1, 0, 2, 4], [3, 1, 0, 4, 2],
     [3, 1, 2, 0, 4], [3, 1, 2, 4, 0], [3, 1, 4, 0, 2], [3, 1, 4, 2, 0],
     [3, 2, 0, 1, 4], [3, 2, 0, 4, 1], [3, 2, 1, 0, 4], [3, 2, 1, 4, 0],
     [3, 2, 4, 0, 1], [3, 2, 4, 1, 0], [3, 4, 0, 1, 2], [3, 4, 0, 2, 1],
     [3, 4, 1, 0, 2], [3, 4, 1, 2, 0], [3, 4, 2, 0, 1], [3, 4, 2, 1, 0],
     [4, 0, 1, 2, 3], [4, 0, 1, 3, 2], [4, 0, 2, 1, 3], [4, 0, 2, 3, 1],
     [4, 0, 3, 1, 2], [4, 0, 3, 2, 1], [4, 1, 0, 2, 3], [4, 1, 0, 3, 2],
     [4, 1, 2, 0, 3], [4, 1, 2, 3, 0], [4, 1, 3, 0, 2], [4, 1, 3, 2, 0],
     [4, 2, 0, 1, 3], [4, 2, 0, 3, 1], [4, 2, 1, 0, 3], [4, 2, 1, 3, 0],
     [4, 2, 3, 0, 1], [4, 2, 3, 1, 0], [4, 3, 0, 1, 2], [4, 3, 0, 2, 1],
     [4, 3, 1, 0, 2], [4, 3, 1, 2, 0], [4, 3, 2, 0, 1], [4, 3, 2, 1, 0]]"

text \<open>The same arrangements of the numbers \<open>c\<close> to \<open>c + 4\<close>.\<close>

definition shifted :: "int \<Rightarrow> int list list" where
  "shifted c = map (map (\<lambda>i. c + i)) arrangements5"

section \<open>Describing the feedback loop\<close>














section \<open>The machines of the amplifier program over their lifetime\<close>

text \<open>
  The machines of the amplifier program are the elements of the static array \<^verbatim>\<open>vm\<close>,
  zero when the program starts; \<^verbatim>\<open>reset\<close> and \<^verbatim>\<open>run\<close>, called from \<^verbatim>\<open>maxamp\<close>, are all
  that changes them (\<^verbatim>\<open>grow\<close> has no caller), and the program \<open>code\<close> is loaded once.
\<close>

inductive amp_reachable :: "int64 list \<Rightarrow> AmpMachine \<Rightarrow> bool" for code :: "int64 list" where
  start: "amp_reachable code
            \<lparr>mem = [], ip = 0, base = 0, halted = False, phase = 0, phased = False\<rparr>"
| reset: "amp_reachable code v \<Longrightarrow> amp_reset al code v ph = Inr v' \<Longrightarrow> amp_reachable code v'"
| run: "amp_reachable code v \<Longrightarrow> amp_run v iv w = Some (Inr (val, v', w')) \<Longrightarrow>
          amp_reachable code v'"

section \<open>Properties of the queue\<close>


lemma fifo_init_ok: "fifo_ok fifo_init"
  by (simp add: fifo_ok_def fifo_init_def FIFOSIZE_def)

lemma queued_init: "queued fifo_init = []"
  by (simp add: queued_def fifo_init_def)

lemma queued_Nil_iff: "fifo_ok f \<Longrightarrow> queued f = [] \<longleftrightarrow> fifohead f = fifotail f"
  unfolding queued_def fifo_ok_def FIFOSIZE_def
  by (auto simp: mod_if)

lemma mod100: "x < 200 \<Longrightarrow> x mod 100 = (if x < 100 then x else x - (100::nat))"
  by (simp add: le_mod_geq)

lemma fifopush_queued:
  assumes "fifo_ok f" and "length (queued f) < FIFOSIZE - 1"
  shows "fifopush v (f, w) = (fst (fifopush v (f, w)), w)"
    and "fifo_ok (fst (fifopush v (f, w)))"
    and "queued (fst (fifopush v (f, w))) = queued f @ [v]"
proof -
  let ?h = "fifohead f" and ?t = "fifotail f"
  let ?n = "(?h + FIFOSIZE - ?t) mod FIFOSIZE"
  let ?f' = "fst (fifopush v (f, w))"
  from assms have ok: "length (fifobuf f) = 100" "?h < 100" "?t < 100"
    and n: "?n < 99"
    by (simp_all add: fifo_ok_def queued_def FIFOSIZE_def)
  have nh: "(?h + 1) mod 100 \<noteq> ?t"
    using ok n unfolding FIFOSIZE_def by (simp add: mod100 split: if_splits; arith)
  show "fifopush v (f, w) = (?f', w)"
    using nh by (simp add: fifopush_def Let_def FIFOSIZE_def)
  show "fifo_ok ?f'"
    using ok by (simp add: fifopush_def Let_def fifo_ok_def FIFOSIZE_def)
  have "((?h + 1) mod 100 + 100 - ?t) mod 100 = Suc ((?h + 100 - ?t) mod 100)"
    using ok n unfolding FIFOSIZE_def by (simp add: mod100 split: if_splits; arith)
  then have n': "(fifohead ?f' + FIFOSIZE - fifotail ?f') mod FIFOSIZE = Suc ?n"
    by (simp add: fifopush_def Let_def FIFOSIZE_def)
  have hpos: "(?t + ?n) mod 100 = ?h"
    using ok unfolding FIFOSIZE_def by (simp add: mod100 split: if_splits; arith)
  have old: "(?t + k) mod 100 \<noteq> ?h" if "k < ?n" for k
    using ok that unfolding FIFOSIZE_def by (simp add: mod100 split: if_splits; arith)
  have a: "(fifobuf f)[?h := v] ! ((?t + k) mod 100) = fifobuf f ! ((?t + k) mod 100)"
    if "k < (?h + 100 - ?t) mod 100" for k
    using old that by (metis FIFOSIZE_def nth_list_update_neq)
  have b: "(fifobuf f)[?h := v] ! ((?t + (?h + 100 - ?t) mod 100) mod 100) = v"
    using hpos ok by (simp add: FIFOSIZE_def)
  show "queued ?f' = queued f @ [v]"
    unfolding queued_def n'
    by (simp add: fifopush_def Let_def FIFOSIZE_def a b cong: map_cong)
qed

lemma fifopop_queued:
  assumes "fifo_ok f" and "queued f = x # xs"
  shows "fifopop (f, w) = (x, fst (snd (fifopop (f, w))), w)"
    and "fifo_ok (fst (snd (fifopop (f, w))))"
    and "queued (fst (snd (fifopop (f, w)))) = xs"
proof -
  let ?h = "fifohead f" and ?t = "fifotail f"
  let ?n = "(?h + FIFOSIZE - ?t) mod FIFOSIZE"
  let ?f' = "fst (snd (fifopop (f, w)))"
  from assms have ok: "length (fifobuf f) = 100" "?h < 100" "?t < 100"
    by (simp_all add: fifo_ok_def FIFOSIZE_def)
  from assms have ne: "?h \<noteq> ?t"
    using queued_Nil_iff [of f] by auto
  have f': "?f' = f\<lparr>fifotail := (?t + 1) mod FIFOSIZE\<rparr>"
    using ne by (simp add: fifopop_def)
  have len: "length (queued f) = ?n"
    by (simp add: queued_def)
  with assms have npos: "?n = Suc (length xs)" by simp
  have hd: "x = fifobuf f ! ?t"
  proof -
    have "x = queued f ! 0" using assms by simp
    also have "\<dots> = fifobuf f ! ((?t + 0) mod FIFOSIZE)"
      unfolding queued_def npos by (simp add: nth_append upt_rec)
    finally show ?thesis using ok by (simp add: FIFOSIZE_def)
  qed
  show "fifopop (f, w) = (x, ?f', w)"
    using ne hd by (simp add: fifopop_def)
  show "fifo_ok ?f'"
    using ok by (simp add: f' fifo_ok_def FIFOSIZE_def)
  have "(?h + 100 - (?t + 1) mod 100) mod 100 = (?h + 100 - ?t) mod 100 - 1"
    using ok ne by (simp add: mod100 split: if_splits; arith)
  then have n': "(fifohead ?f' + FIFOSIZE - fifotail ?f') mod FIFOSIZE = length xs"
    using npos by (simp add: f' FIFOSIZE_def)
  show "queued ?f' = xs"
  proof (rule nth_equalityI)
    show "length (queued ?f') = length xs"
      by (simp add: queued_def n')
  next
    fix i assume "i < length (queued ?f')"
    then have i: "i < length xs" by (simp add: queued_def n')
    have "queued ?f' ! i = fifobuf f ! ((((?t + 1) mod 100) + i) mod 100)"
      unfolding queued_def n' using i by (simp add: f' FIFOSIZE_def)
    also have "(((?t + 1) mod 100) + i) mod 100 = (?t + Suc i) mod 100"
      by (simp add: mod_simps)
    also have "fifobuf f ! ((?t + Suc i) mod 100) = queued f ! Suc i"
    proof -
      have "Suc i < length [0 ..< ?n]" using i npos by simp
      then have "queued f ! Suc i = fifobuf f ! ((?t + [0 ..< ?n] ! Suc i) mod FIFOSIZE)"
        unfolding queued_def by (rule nth_map)
      also have "[0 ..< ?n] ! Suc i = Suc i" using i npos by (metis add_0 nth_upt Suc_less_eq)
      finally show ?thesis by (simp add: FIFOSIZE_def)
    qed
    also have "\<dots> = xs ! i" using assms by simp
    finally show "queued ?f' ! i = xs ! i" .
  qed
qed



lemma fifopush_full:
  assumes "fifo_ok f" and "length (queued f) = FIFOSIZE - 1"
  shows "snd (fifopush v (f, w)) = output' v w"
    and "queued (fst (fifopush v (f, w))) = []"
proof -
  from assms have ok: "fifohead f < 100" "fifotail f < 100"
    and n: "(fifohead f + 100 - fifotail f) mod 100 = 99"
    by (simp_all add: fifo_ok_def queued_def FIFOSIZE_def)
  have nh: "(fifohead f + 1) mod 100 = fifotail f"
    using ok n by (simp add: mod100 split: if_splits; arith)
  show "snd (fifopush v (f, w)) = output' v w"
    using nh by (simp add: fifopush_def Let_def FIFOSIZE_def)
  show "queued (fst (fifopush v (f, w))) = []"
    using nh ok by (simp add: fifopush_def Let_def FIFOSIZE_def queued_def)
qed

lemma pushes_queued:
  "fifo_ok f \<Longrightarrow> length (queued f) + length vs < FIFOSIZE \<Longrightarrow>
     \<exists>f'. pushes vs (f, w) = (f', w) \<and> fifo_ok f' \<and> queued f' = queued f @ vs"
proof (induction vs arbitrary: f)
  case Nil
  then show ?case by simp
next
  case (Cons v vs)
  let ?f1 = "fst (fifopush v (f, w))"
  from Cons.prems have small: "length (queued f) < FIFOSIZE - 1" by simp
  note p = fifopush_queued [OF Cons.prems(1) small, of v w]
  have "length (queued ?f1) + length vs < FIFOSIZE"
    using Cons.prems(2) p(3) by simp
  from Cons.IH [OF p(2) this] obtain f' where
    "pushes vs (?f1, w) = (f', w)" "fifo_ok f'" "queued f' = queued ?f1 @ vs"
    by blast
  then show ?case using p(1) p(3) by simp
qed

lemma pops_queued:
  "fifo_ok f \<Longrightarrow> queued f = xs @ ys \<Longrightarrow>
     \<exists>f'. pops (length xs) (f, w) = (xs, f', w) \<and> fifo_ok f' \<and> queued f' = ys"
proof (induction xs arbitrary: f)
  case Nil
  then show ?case by simp
next
  case (Cons x xs)
  from Cons.prems(2) have q: "queued f = x # (xs @ ys)" by simp
  obtain f1 where f1: "fifopop (f, w) = (x, f1, w)" "fifo_ok f1" "queued f1 = xs @ ys"
    using fifopop_queued [OF Cons.prems(1) q, of w] by blast
  from Cons.IH [OF f1(2) f1(3)] obtain f' where
    f': "pops (length xs) (f1, w) = (xs, f', w)" "fifo_ok f'" "queued f' = ys"
    by blast
  have "pops (length (x # xs)) (f, w) = (x # xs, f', w)"
    by (simp add: f1(1) f'(1))
  then show ?case using f'(2,3) by blast
qed

lemma fifopop_empty:
  assumes "fifohead f = fifotail f"
  shows "fifopop (f, w) =
    (case stdin w of [] \<Rightarrow> 0 | v # _ \<Rightarrow> v, f,
     w\<lparr>stdin := tl (stdin w), stdout := stdout w @ (if tty w then [Prompt] else [])\<rparr>)"
  using assms by (cases w) (simp add: fifopop_def input_def split: list.splits)

text \<open>
  C8: popping a queue that holds values removes and returns the oldest one and leaves
  the world alone, so that values pushed (fewer than the capacity) come back in the order
  they were pushed; popping an empty queue does not fail: it reads one value from
  standard input (0 when no line is left), after a prompt exactly when the input is a
  terminal, and leaves the queue as it was.
\<close>

theorem fifopop_fifo_or_input:
  assumes "fifo_ok f"
  shows "(\<forall>x xs. queued f = x # xs \<longrightarrow>
            (\<exists>f'. fifopop (f, w) = (x, f', w) \<and> fifo_ok f' \<and> queued f' = xs))
       \<and> (queued f = [] \<longrightarrow>
            fifopop (f, w) =
              (case stdin w of [] \<Rightarrow> 0 | v # _ \<Rightarrow> v, f,
               w\<lparr>stdin := tl (stdin w),
                 stdout := stdout w @ (if tty w then [Prompt] else [])\<rparr>))
       \<and> (length (queued f) + length vs < FIFOSIZE \<longrightarrow>
            (\<exists>f'. pops (length (queued f @ vs)) (pushes vs (f, w)) = (queued f @ vs, f', w)
                 \<and> queued f' = []))"
proof (intro conjI allI impI)
  fix x xs assume "queued f = x # xs"
  from fifopop_queued [OF assms this, of w]
  show "\<exists>f'. fifopop (f, w) = (x, f', w) \<and> fifo_ok f' \<and> queued f' = xs"
    by blast
next
  assume "queued f = []"
  then have "fifohead f = fifotail f"
    using queued_Nil_iff [OF assms] by simp
  then show "fifopop (f, w) =
      (case stdin w of [] \<Rightarrow> 0 | v # _ \<Rightarrow> v, f,
       w\<lparr>stdin := tl (stdin w), stdout := stdout w @ (if tty w then [Prompt] else [])\<rparr>)"
    by (rule fifopop_empty)
next
  assume "length (queued f) + length vs < FIFOSIZE"
  from pushes_queued [OF assms this, of w] obtain f1 where
    f1: "pushes vs (f, w) = (f1, w)" "fifo_ok f1" "queued f1 = queued f @ vs"
    by blast
  from pops_queued [of f1 "queued f @ vs" "[]" w] f1 obtain f' where
    "pops (length (queued f @ vs)) (f1, w) = (queued f @ vs, f', w)" "queued f' = []"
    by auto
  then show "\<exists>f'. pops (length (queued f @ vs)) (pushes vs (f, w)) = (queued f @ vs, f', w)
                 \<and> queued f' = []"
    using f1(1) by simp
qed

theorem fifopop_fifo_or_input_witness:
  "fifo_ok fifo_init
   \<and> fifopop (fifo_init, \<lparr>stdin = [7, 8], tty = True, stdout = []\<rparr>) =
       (7, fifo_init, \<lparr>stdin = [8], tty = True, stdout = [Prompt]\<rparr>)
   \<and> fst (pops 3 (pushes [4, 5, 6] (fifo_init, \<lparr>stdin = [7, 8], tty = True, stdout = []\<rparr>)))
       = [4, 5, 6]"
  using fifopop_fifo_or_input [OF fifo_init_ok,
      of "\<lparr>stdin = [7, 8], tty = True, stdout = []\<rparr>" "[4, 5, 6]"]
  by (auto simp: queued_init fifo_init_ok FIFOSIZE_def numeral_3_eq_3)

text \<open>
  C7 (what the code does at capacity): the queue holds 99 values (\<open>fifohead = 99\<close>,
  \<open>fifotail = 0\<close>). Pushing 6 prints 6, but the value is stored and the head advanced all
  the same: the head meets the tail, the queue reads as empty, and the next pop takes 7
  from standard input instead of the oldest queued value.
\<close>

theorem fifopush_at_capacity_empties_queue:
  "fifo_ok \<lparr>fifobuf = (replicate 99 5 @ [0]), fifohead = 99, fifotail = 0\<rparr>
   \<and> length (queued \<lparr>fifobuf = (replicate 99 5 @ [0]), fifohead = 99, fifotail = 0\<rparr>) = 99
   \<and> fifopush 6 (\<lparr>fifobuf = (replicate 99 5 @ [0]), fifohead = 99, fifotail = 0\<rparr>,
                 \<lparr>stdin = [7], tty = False, stdout = []\<rparr>)
       = (\<lparr>fifobuf = replicate 99 5 @ [6], fifohead = 0, fifotail = 0\<rparr>,
          \<lparr>stdin = [7], tty = False, stdout = [Line 6]\<rparr>)
   \<and> queued \<lparr>fifobuf = replicate 99 5 @ [6], fifohead = 0, fifotail = 0\<rparr> = []
   \<and> fifopop (\<lparr>fifobuf = replicate 99 5 @ [6], fifohead = 0, fifotail = 0\<rparr>,
               \<lparr>stdin = [7], tty = False, stdout = [Line 6]\<rparr>)
       = (7, \<lparr>fifobuf = replicate 99 5 @ [6], fifohead = 0, fifotail = 0\<rparr>,
          \<lparr>stdin = [], tty = False, stdout = [Line 6]\<rparr>)"
  by (simp add: fifo_ok_def queued_def fifopush_def fifopop_def input_def output'_def
      FIFOSIZE_def Let_def list_update_append)


section \<open>Names of the opcodes\<close>


lemmas opcodes = NOP_def ADD_def MUL_def INP_def OUT_def JNZ_def JPZ_def LT_def EQ_def
  RBO_def HLT_def

section \<open>The size of a machine\<close>

lemma setsize_length:
  "setsize al pv n = Inr pv' \<Longrightarrow> length (mem pv') = max (length (mem pv)) n"
  by (auto simp: setsize_def split: if_splits)

lemma setsize_regs:
  "setsize al pv n = Inr pv' \<Longrightarrow> ip pv' = ip pv \<and> base pv' = base pv \<and> halted pv' = halted pv"
  by (auto simp: setsize_def split: if_splits)

lemma copyvm_length:
  "copyvm al dst src = Inr dst' \<Longrightarrow> length (mem dst') = max (length (mem dst)) (length (mem src))"
  by (auto simp: copyvm_def Let_def dest!: setsize_length split: sum.splits if_splits)

lemma rdpar_length:
  "rdpar al pv modes = Inr (q, pv') \<Longrightarrow> length (mem pv) \<le> length (mem pv')"
  by (auto simp: rdpar_def Let_def dest!: setsize_length split: sum.splits if_splits)

lemma rdpars_length:
  "rdpars al n pv modes = Inr (qs, modes', pv') \<Longrightarrow> length (mem pv) \<le> length (mem pv')"
proof (induction n arbitrary: pv modes qs)
  case 0
  then show ?case by simp
next
  case (Suc n)
  then show ?case
    by (fastforce split: sum.splits prod.splits dest: rdpar_length)
qed

lemma wrpar_length:
  "wrpar al pv modes = Inr (q, pv') \<Longrightarrow> length (mem pv) \<le> length (mem pv')"
  by (auto simp: wrpar_def Let_def dest!: setsize_length split: sum.splits if_splits)

lemma wrpars_length:
  "wrpars al n pv modes = Inr (qs, pv') \<Longrightarrow> length (mem pv) \<le> length (mem pv')"
  by (auto simp: wrpars_def split: sum.splits if_splits dest: wrpar_length)

lemma fetch_mem:
  "fetch pv = Inr (instr, def, pv') \<Longrightarrow> mem pv' = mem pv"
  by (auto simp: fetch_def Let_def split: if_splits)

lemma exec_length:
  "exec opv p (pv, f, w) = (r, pv', f', w') \<Longrightarrow> length (mem pv') = length (mem pv)"
  by (auto simp: exec_def split: if_splits prod.splits)

lemma stepE:
  assumes "step al (pv, f, w) = Inr x"
  obtains instr def pv1 ps modes pv2 qs pv3 where
    "fetch pv = Inr (instr, def, pv1)"
    "rdpars al (ic def) pv1 (instr sdiv 100) = Inr (ps, modes, pv2)"
    "wrpars al (oc def) pv2 modes = Inr (qs, pv3)"
    "x = exec (instr smod 100) (ps @ qs) (pv3, f, w)"
  using assms unfolding step_def by (auto split: sum.splits prod.splits)

lemma step_length:
  assumes "step al (pv, f, w) = Inr (r, pv', f', w')"
  shows "length (mem pv) \<le> length (mem pv')"
proof -
  from assms obtain instr def pv1 ps modes pv2 qs pv3 where
    f: "fetch pv = Inr (instr, def, pv1)"
    and r: "rdpars al (ic def) pv1 (instr sdiv 100) = Inr (ps, modes, pv2)"
    and w: "wrpars al (oc def) pv2 modes = Inr (qs, pv3)"
    and e: "(r, pv', f', w') = exec (instr smod 100) (ps @ qs) (pv3, f, w)"
    by (rule stepE)
  from fetch_mem [OF f] rdpars_length [OF r] wrpars_length [OF w] exec_length [OF e [symmetric]]
  show ?thesis by simp
qed

lemma run_induct [consumes 1, case_names Halted Fault Return Step]:
  assumes "run al s = Some y"
    and "\<And>s. halted (fst s) \<Longrightarrow> P s (Inr s)"
    and "\<And>s e. \<not> halted (fst s) \<Longrightarrow> step al s = Inl e \<Longrightarrow> P s (Inl e)"
    and "\<And>s s'. \<not> halted (fst s) \<Longrightarrow> step al s = Inr (True, s') \<Longrightarrow> P s (Inr s')"
    and "\<And>s s' y. \<not> halted (fst s) \<Longrightarrow> step al s = Inr (False, s') \<Longrightarrow>
           run al s' = Some y \<Longrightarrow> P s' y \<Longrightarrow> P s y"
  shows "P s y"
proof -
  let ?Q = "\<lambda>al' s y. al' = al \<longrightarrow> run al s = Some y \<and> P s y"
  have "?Q al s y"
  proof (rule run.raw_induct [where P = ?Q])
    show "run al s = Some y" by fact
  next
    fix run' al' s y
    assume IH: "\<And>al s y. run' al s = Some y \<Longrightarrow> ?Q al s y"
      and body: "(if halted (fst s) then Some (Inr s)
         else case step al' s of Inl e \<Rightarrow> Some (Inl e)
              | Inr (ret, s') \<Rightarrow> if ret then Some (Inr s') else run' al' s') = Some y"
    show "?Q al' s y"
    proof
      assume al': "al' = al"
      show "run al s = Some y \<and> P s y"
      proof (cases "halted (fst s)")
        case True
        with body assms(2) [OF True] show ?thesis by (auto simp: run.simps)
      next
        case nh: False
        show ?thesis
        proof (cases "step al s")
          case (Inl e)
          with nh body al' assms(3) [OF nh Inl] show ?thesis by (auto simp: run.simps)
        next
          case (Inr t)
          obtain ret s' where t: "t = (ret, s')" by (cases t)
          show ?thesis
          proof (cases ret)
            case True
            with nh body al' Inr t assms(4) [OF nh] show ?thesis by (auto simp: run.simps)
          next
            case False
            with nh body al' Inr t have "run' al s' = Some y" by simp
            from IH [OF this] have r: "run al s' = Some y" and p: "P s' y" by simp_all
            from assms(5) [OF nh _ r p] Inr t False have "P s y" by simp
            moreover have "run al s = Some y"
              using nh Inr t False r by (subst run.simps) simp
            ultimately show ?thesis by simp
          qed
        qed
      qed
    qed
  qed
  then show ?thesis by simp
qed

lemma run_length:
  assumes "run al s = Some (Inr s')"
  shows "length (mem (fst s)) \<le> length (mem (fst s'))"
proof -
  have "\<forall>s'. y = Inr s' \<longrightarrow> length (mem (fst s)) \<le> length (mem (fst s'))"
    if "run al s = Some y" for y
    using that
  proof (induction rule: run_induct)
    case (Halted s)
    then show ?case by simp
  next
    case (Fault s e)
    then show ?case by simp
  next
    case (Return s s')
    then show ?case by (cases s; cases s') (auto dest: step_length)
  next
    case (Step s s' y)
    then show ?case by (cases s; cases s') (auto dest!: step_length)
  qed
  with assms show ?thesis by blast
qed



lemma bindE_Inr:
  "bindE m k = Inr y \<longleftrightarrow> (\<exists>x. m = Inr x \<and> k x = Inr y)"
  by (cases m) (simp_all add: bindE_def)

lemma amp_wr_length: "amp_wr m i v = Inr m' \<Longrightarrow> length m' = length m"
  by (auto simp: amp_wr_def split: if_splits)

lemma amp_rdpar_mem: "amp_rdpar pvm modes = Inr (q, pvm') \<Longrightarrow> mem pvm' = mem pvm"
  by (auto simp: amp_rdpar_def Let_def bindE_Inr split: if_splits)

lemma amp_rdpars_mem: "amp_rdpars n pvm modes = Inr (qs, modes', pvm') \<Longrightarrow> mem pvm' = mem pvm"
proof (induction n arbitrary: pvm modes qs)
  case 0
  then show ?case by simp
next
  case (Suc n)
  then show ?case
    by (auto simp: bindE_Inr dest!: amp_rdpar_mem)
qed

lemma amp_wrpars_mem: "amp_wrpars n pvm modes = Inr (qs, pvm') \<Longrightarrow> mem pvm' = mem pvm"
  by (auto simp: amp_wrpars_def amp_wrpar_def Let_def bindE_Inr split: if_splits)

lemma amp_exec_length:
  "amp_exec opv p inputval (pvm, e, w) = Inr (r, pvm', e', w') \<Longrightarrow>
     length (mem pvm') = length (mem pvm)"
  by (auto simp: amp_exec_def bindE_Inr split: if_splits prod.splits dest: amp_wr_length)

lemma amp_step_length:
  "amp_step inputval (pvm, e, w) = Inr (r, pvm', e', w') \<Longrightarrow>
     length (mem pvm') = length (mem pvm)"
  by (auto simp: amp_step_def Let_def bindE_Inr
      dest!: amp_rdpars_mem amp_wrpars_mem amp_exec_length)

lemma amp_loop_induct [consumes 1, case_names Halted Fault Return Step]:
  assumes "amp_loop iv s = Some y"
    and "\<And>pvm e w. halted pvm \<Longrightarrow> P (pvm, e, w) (Inr (iv, pvm, w))"
    and "\<And>s x. \<not> halted (fst s) \<Longrightarrow> amp_step iv s = Inl x \<Longrightarrow> P s (Inl x)"
    and "\<And>s val pvm' e' w'. \<not> halted (fst s) \<Longrightarrow>
           amp_step iv s = Inr (Some val, pvm', e', w') \<Longrightarrow> P s (Inr (val, pvm', w'))"
    and "\<And>s s' y. \<not> halted (fst s) \<Longrightarrow> amp_step iv s = Inr (None, s') \<Longrightarrow>
           amp_loop iv s' = Some y \<Longrightarrow> P s' y \<Longrightarrow> P s y"
  shows "P s y"
proof -
  let ?Q = "\<lambda>iv' s y. iv' = iv \<longrightarrow> amp_loop iv s = Some y \<and> P s y"
  have "?Q iv s y"
  proof (rule amp_loop.raw_induct [where P = ?Q])
    show "amp_loop iv s = Some y" by fact
  next
    fix loop' iv' s y
    assume IH: "\<And>iv s y. loop' iv s = Some y \<Longrightarrow> ?Q iv s y"
      and body: "(case s of (pvm, emptyq, w) \<Rightarrow>
          if halted pvm then Some (Inr (iv', pvm, w))
          else case amp_step iv' s of Inl e \<Rightarrow> Some (Inl e)
               | Inr (None, s') \<Rightarrow> loop' iv' s'
               | Inr (Some val, pvm', emptyq', w') \<Rightarrow> Some (Inr (val, pvm', w'))) = Some y"
    obtain pvm e w where s: "s = (pvm, e, w)" by (cases s)
    show "?Q iv' s y"
    proof
      assume iv': "iv' = iv"
      show "amp_loop iv s = Some y \<and> P s y"
      proof (cases "halted pvm")
        case True
        with body s iv' assms(2) [OF True, of e w] show ?thesis
          by (auto simp: amp_loop.simps)
      next
        case nh: False
        then have nh': "\<not> halted (fst s)" using s by simp
        show ?thesis
        proof (cases "amp_step iv s")
          case (Inl x)
          with nh body s iv' assms(3) [OF nh' Inl] show ?thesis
            by (auto simp: amp_loop.simps)
        next
          case (Inr t)
          obtain r s' where t: "t = (r, s')" by (cases t)
          show ?thesis
          proof (cases r)
            case (Some val)
            obtain pvm' e' w' where s': "s' = (pvm', e', w')" by (cases s')
            with nh body s iv' Inr t Some assms(4) [OF nh', of val pvm' e' w']
            show ?thesis by (auto simp: amp_loop.simps)
          next
            case None
            with nh body s iv' Inr t have "loop' iv s' = Some y" by simp
            from IH [OF this] have r: "amp_loop iv s' = Some y" and p: "P s' y" by simp_all
            from assms(5) [OF nh' _ r p] Inr t None have "P s y" by simp
            moreover have "amp_loop iv s = Some y"
              using nh s Inr t None r by (subst amp_loop.simps) simp
            ultimately show ?thesis by simp
          qed
        qed
      qed
    qed
  qed
  then show ?thesis by simp
qed

lemma amp_loop_length:
  assumes "amp_loop iv s = Some (Inr (r, pvm', w'))"
  shows "length (mem pvm') = length (mem (fst s))"
proof -
  have "\<forall>r pvm' w'. y = Inr (r, pvm', w') \<longrightarrow> length (mem pvm') = length (mem (fst s))"
    if "amp_loop iv s = Some y" for y
    using that
  proof (induction rule: amp_loop_induct)
    case (Halted pvm e w)
    then show ?case by simp
  next
    case (Fault s x)
    then show ?case by simp
  next
    case (Return s val pvm' e' w')
    then show ?case by (cases s) (auto dest: amp_step_length)
  next
    case (Step s s' y)
    then show ?case by (cases s; cases s') (auto dest!: amp_step_length)
  qed
  with assms show ?thesis by blast
qed

lemma amp_run_length:
  "amp_run pvm iv w = Some (Inr (r, pvm', w')) \<Longrightarrow> length (mem pvm') = length (mem pvm)"
  unfolding amp_run_def by (drule amp_loop_length) simp

lemma amp_reset_Inr:
  "amp_reset al code pvm ph = Inr pvm' \<Longrightarrow>
     mem pvm' = code \<and> ip pvm' = 0 \<and> base pvm' = 0 \<and> \<not> halted pvm' \<and>
     phase pvm' = ph \<and> \<not> phased pvm'"
  by (auto simp: amp_reset_def split: if_splits)


section \<open>Running the definitions on concrete programs\<close>


lemma rdpars_numeral:
  "rdpars al (numeral k) pv modes = rdpars al (Suc (pred_numeral k)) pv modes"
  by (simp add: numeral_eq_Suc)

lemma amp_rdpars_numeral:
  "amp_rdpars (numeral k) pvm modes = amp_rdpars (Suc (pred_numeral k)) pvm modes"
  by (simp add: numeral_eq_Suc)

lemma replicate_num: "replicate (numeral k) x = x # replicate (pred_numeral k) x"
  by (simp add: numeral_eq_Suc)

lemmas eval_vm = replicate_num
  step_def fetch_def getdef_def lang_def langsize_def opcodes IMM_def REL_def POS_def
  rdpar_def rdpars_numeral wrpar_def wrpars_def exec_def setsize_def Let_def
  signed_modulo_int_def signed_divide_int_def bool64_def
  fifopop_def fifopush_def input_def output'_def FIFOSIZE_def

lemmas eval_amp =
  amp_step_def amp_def_def lang_def langsize_def opcodes IMM_def REL_def POS_def
  amp_rdpar_def amp_rdpars_numeral amp_wrpar_def amp_wrpars_def amp_exec_def
  amp_rd_def amp_wr_def bindE_def Let_def
  signed_modulo_int_def signed_divide_int_def bool64_def input_def


section \<open>The size of a machine over its operations\<close>


lemma load_Inr:
  assumes "load al pv0 fl = Inr ref"
  shows "\<exists>f. fl = Some f \<and> commas f \<noteq> 0 \<and> commas f + 1 < 2 ^ 61
           \<and> al (commas f + 1) \<and> commas f + 1 \<le> length (numbers f)
           \<and> ref = \<lparr>mem = map scast (take (commas f + 1) (numbers f)),
                     ip = 0, base = 0, halted = False\<rparr>"
proof (cases fl)
  case None
  with assms show ?thesis by (simp add: load_def)
next
  case (Some f)
  with assms show ?thesis
    by (auto simp: load_def clean_def setsize_def split: if_splits)
qed

lemma amp_reachable_size:
  "amp_reachable code v \<Longrightarrow> length (mem v) = 0 \<or> length (mem v) = length code"
proof (induction rule: amp_reachable.induct)
  case start
  then show ?case by simp
next
  case (reset v al ph v')
  then show ?case by (simp add: amp_reset_Inr)
next
  case (run v iv w val v' w')
  then show ?case by (simp add: amp_run_length)
qed

text \<open>
  C9 (as the code has it): in \<^verbatim>\<open>intcode.c\<close> neither \<^verbatim>\<open>setsize\<close>, nor a read or write
  parameter with its growth on demand, nor \<^verbatim>\<open>copyvm\<close>, nor a turn of the loop of \<^verbatim>\<open>run\<close>,
  nor a whole \<^verbatim>\<open>run\<close> ever makes the memory of a machine smaller. In the amplifier
  program a turn of the loop and a whole \<^verbatim>\<open>run\<close> leave the size as it is; a machine
  that the program can reach has no cells or as many as the program, and \<^verbatim>\<open>reset\<close>
  does not make it smaller. \<^verbatim>\<open>load\<close> of \<^verbatim>\<open>intcode.c\<close> cleans the machine and leaves it with
  one cell more than the file has commas, whatever its size was.
\<close>

theorem size_never_decreases:
  "(setsize al pv n = Inr pv1 \<longrightarrow> length (mem pv) \<le> length (mem pv1))
   \<and> (rdpar al pv6 m6 = Inr (q6, pv6') \<longrightarrow> length (mem pv6) \<le> length (mem pv6'))
   \<and> (wrpar al pv7 m7 = Inr (q7, pv7') \<longrightarrow> length (mem pv7) \<le> length (mem pv7'))
   \<and> (copyvm al dst src = Inr dst' \<longrightarrow> length (mem dst) \<le> length (mem dst'))
   \<and> (step al (pv2, f2, w2) = Inr (r2, pv2', f2', w2') \<longrightarrow>
        length (mem pv2) \<le> length (mem pv2'))
   \<and> (run al (pv3, f3, w3) = Some (Inr (pv3', f3', w3')) \<longrightarrow>
        length (mem pv3) \<le> length (mem pv3'))
   \<and> (amp_step iv (pvm4, e4, w4) = Inr (r4, pvm4', e4', w4') \<longrightarrow>
        length (mem pvm4') = length (mem pvm4))
   \<and> (amp_run pvm5 iv5 w5 = Some (Inr (v5, pvm5', w5')) \<longrightarrow>
        length (mem pvm5') = length (mem pvm5))
   \<and> (amp_reachable code pvm \<longrightarrow>
        (length (mem pvm) = 0 \<or> length (mem pvm) = length code)
        \<and> (amp_reset al code pvm ph = Inr pvm' \<longrightarrow>
             length (mem pvm') = length code \<and> length (mem pvm) \<le> length (mem pvm')))
   \<and> (load al pv8 fl = Inr pv8' \<longrightarrow>
        (\<exists>f. fl = Some f \<and> length (mem pv8') = commas f + 1))"
proof -
  have 1: "setsize al pv n = Inr pv1 \<longrightarrow> length (mem pv) \<le> length (mem pv1)"
    by (simp add: setsize_length)
  have 2: "rdpar al pv6 m6 = Inr (q6, pv6') \<longrightarrow> length (mem pv6) \<le> length (mem pv6')"
    using rdpar_length by blast
  have 3: "wrpar al pv7 m7 = Inr (q7, pv7') \<longrightarrow> length (mem pv7) \<le> length (mem pv7')"
    using wrpar_length by blast
  have 4: "copyvm al dst src = Inr dst' \<longrightarrow> length (mem dst) \<le> length (mem dst')"
    by (simp add: copyvm_length)
  have 5: "step al (pv2, f2, w2) = Inr (r2, pv2', f2', w2') \<longrightarrow>
        length (mem pv2) \<le> length (mem pv2')"
    using step_length by blast
  have 6: "run al (pv3, f3, w3) = Some (Inr (pv3', f3', w3')) \<longrightarrow>
        length (mem pv3) \<le> length (mem pv3')"
  proof
    assume "run al (pv3, f3, w3) = Some (Inr (pv3', f3', w3'))"
    from run_length [OF this] show "length (mem pv3) \<le> length (mem pv3')" by simp
  qed
  have 7: "amp_step iv (pvm4, e4, w4) = Inr (r4, pvm4', e4', w4') \<longrightarrow>
        length (mem pvm4') = length (mem pvm4)"
    using amp_step_length by blast
  have 8: "amp_run pvm5 iv5 w5 = Some (Inr (v5, pvm5', w5')) \<longrightarrow>
        length (mem pvm5') = length (mem pvm5)"
    using amp_run_length by blast
  have 9: "amp_reachable code pvm \<longrightarrow>
        (length (mem pvm) = 0 \<or> length (mem pvm) = length code)
        \<and> (amp_reset al code pvm ph = Inr pvm' \<longrightarrow>
             length (mem pvm') = length code \<and> length (mem pvm) \<le> length (mem pvm'))"
  proof
    assume "amp_reachable code pvm"
    then have s: "length (mem pvm) = 0 \<or> length (mem pvm) = length code"
      by (rule amp_reachable_size)
    have "amp_reset al code pvm ph = Inr pvm' \<longrightarrow>
             length (mem pvm') = length code \<and> length (mem pvm) \<le> length (mem pvm')"
      using s by (auto simp: amp_reset_Inr)
    with s show "(length (mem pvm) = 0 \<or> length (mem pvm) = length code)
        \<and> (amp_reset al code pvm ph = Inr pvm' \<longrightarrow>
             length (mem pvm') = length code \<and> length (mem pvm) \<le> length (mem pvm'))"
      by (rule conjI)
  qed
  have 10: "load al pv8 fl = Inr pv8' \<longrightarrow>
        (\<exists>f. fl = Some f \<and> length (mem pv8') = commas f + 1)"
  proof
    assume "load al pv8 fl = Inr pv8'"
    from load_Inr [OF this] show "\<exists>f. fl = Some f \<and> length (mem pv8') = commas f + 1"
      by auto
  qed
  show ?thesis
    by (rule conjI [OF 1 conjI [OF 2 conjI [OF 3 conjI [OF 4 conjI [OF 5
          conjI [OF 6 conjI [OF 7 conjI [OF 8 conjI [OF 9 10]]]]]]]]])
qed

theorem size_never_decreases_witness:
  "setsize (\<lambda>n. True) \<lparr>mem = [99, 0], ip = 0, base = 0, halted = False\<rparr> 4
     = Inr \<lparr>mem = [99, 0, 0, 0], ip = 0, base = 0, halted = False\<rparr>
   \<and> rdpar (\<lambda>n. True) \<lparr>mem = [4, 5, 99], ip = 1, base = 0, halted = False\<rparr> 0
     = Inr (0, \<lparr>mem = [4, 5, 99, 0, 0, 0], ip = 2, base = 0, halted = False\<rparr>)
   \<and> wrpar (\<lambda>n. True) \<lparr>mem = [3, 5, 99], ip = 1, base = 0, halted = False\<rparr> 0
     = Inr (5, \<lparr>mem = [3, 5, 99, 0, 0, 0], ip = 2, base = 0, halted = False\<rparr>)
   \<and> copyvm (\<lambda>n. True) \<lparr>mem = [1, 2, 3], ip = 2, base = 1, halted = True\<rparr>
        \<lparr>mem = [99, 0], ip = 0, base = 0, halted = False\<rparr>
     = Inr \<lparr>mem = [99, 0, 0], ip = 0, base = 0, halted = False\<rparr>
   \<and> step (\<lambda>n. True) (\<lparr>mem = [1101, 5, 6, 7, 99], ip = 0, base = 0, halted = False\<rparr>,
         fifo_init, \<lparr>stdin = [], tty = False, stdout = []\<rparr>)
     = Inr (False, \<lparr>mem = [1101, 5, 6, 7, 99, 0, 0, 11], ip = 4, base = 0, halted = False\<rparr>,
         fifo_init, \<lparr>stdin = [], tty = False, stdout = []\<rparr>)
   \<and> run (\<lambda>n. True) (\<lparr>mem = [1101, 5, 6, 7, 99], ip = 0, base = 0, halted = False\<rparr>,
         fifo_init, \<lparr>stdin = [], tty = False, stdout = []\<rparr>)
     = Some (Inr (\<lparr>mem = [1101, 5, 6, 7, 99, 0, 0, 11], ip = 5, base = 0, halted = True\<rparr>,
         fifo_init, \<lparr>stdin = [], tty = False, stdout = []\<rparr>))
   \<and> amp_step 7 (\<lparr>mem = [3, 0, 4, 0, 99], ip = 0, base = 0, halted = False,
                    phase = 8, phased = False\<rparr>, False, \<lparr>stdin = [], tty = False, stdout = []\<rparr>)
     = Inr (None, \<lparr>mem = [8, 0, 4, 0, 99], ip = 2, base = 0, halted = False,
                    phase = 8, phased = True\<rparr>, False, \<lparr>stdin = [], tty = False, stdout = []\<rparr>)
   \<and> amp_run \<lparr>mem = [3, 0, 4, 0, 99], ip = 0, base = 0, halted = False,
                phase = 8, phased = False\<rparr> 7 \<lparr>stdin = [], tty = False, stdout = []\<rparr>
     = Some (Inr (8, \<lparr>mem = [8, 0, 4, 0, 99], ip = 4, base = 0, halted = False,
                phase = 8, phased = True\<rparr>, \<lparr>stdin = [], tty = False, stdout = []\<rparr>))
   \<and> amp_reachable [3, 0, 4, 0, 99]
        \<lparr>mem = [], ip = 0, base = 0, halted = False, phase = 0, phased = False\<rparr>
   \<and> amp_reset (\<lambda>n. True) [3, 0, 4, 0, 99]
        \<lparr>mem = [], ip = 0, base = 0, halted = False, phase = 0, phased = False\<rparr> 8
     = Inr \<lparr>mem = [3, 0, 4, 0, 99], ip = 0, base = 0, halted = False, phase = 8, phased = False\<rparr>
   \<and> load (\<lambda>n. True) \<lparr>mem = [7], ip = 1, base = 1, halted = True\<rparr>
        (Some \<lparr>commas = 3, numbers = [1, 0, 0, 0]\<rparr>)
     = Inr \<lparr>mem = [1, 0, 0, 0], ip = 0, base = 0, halted = False\<rparr>
   \<and> length ([99, 0] :: int64 list) \<le> length ([99, 0, 0, 0] :: int64 list)
   \<and> length ([4, 5, 99] :: int64 list) \<le> length ([4, 5, 99, 0, 0, 0] :: int64 list)
   \<and> length ([1, 2, 3] :: int64 list) \<le> length ([99, 0, 0] :: int64 list)
   \<and> length ([1101, 5, 6, 7, 99] :: int64 list)
        \<le> length ([1101, 5, 6, 7, 99, 0, 0, 11] :: int64 list)
   \<and> length ([8, 0, 4, 0, 99] :: int64 list) = length ([3, 0, 4, 0, 99] :: int64 list)
   \<and> length ([] :: int64 list) \<le> length ([3, 0, 4, 0, 99] :: int64 list)
   \<and> length ([1, 0, 0, 0] :: int64 list) = 3 + 1"
proof -
  let ?al = "\<lambda>n::nat. True"
  let ?w = "\<lparr>stdin = [], tty = False, stdout = []\<rparr>"
  let ?pv = "\<lparr>mem = [99, 0], ip = 0, base = 0, halted = False\<rparr>"
  let ?pv1 = "\<lparr>mem = [99, 0, 0, 0], ip = 0, base = 0, halted = False\<rparr>"
  let ?pv6 = "\<lparr>mem = [4, 5, 99], ip = 1, base = 0, halted = False\<rparr>"
  let ?pv6' = "\<lparr>mem = [4, 5, 99, 0, 0, 0], ip = 2, base = 0, halted = False\<rparr>"
  let ?pv7 = "\<lparr>mem = [3, 5, 99], ip = 1, base = 0, halted = False\<rparr>"
  let ?pv7' = "\<lparr>mem = [3, 5, 99, 0, 0, 0], ip = 2, base = 0, halted = False\<rparr>"
  let ?dst = "\<lparr>mem = [1, 2, 3], ip = 2, base = 1, halted = True\<rparr>"
  let ?dst' = "\<lparr>mem = [99, 0, 0], ip = 0, base = 0, halted = False\<rparr>"
  let ?pv2 = "\<lparr>mem = [1101, 5, 6, 7, 99], ip = 0, base = 0, halted = False\<rparr>"
  let ?pv2' = "\<lparr>mem = [1101, 5, 6, 7, 99, 0, 0, 11], ip = 4, base = 0, halted = False\<rparr>"
  let ?pv3' = "\<lparr>mem = [1101, 5, 6, 7, 99, 0, 0, 11], ip = 5, base = 0, halted = True\<rparr>"
  let ?pvm4 = "\<lparr>mem = [3, 0, 4, 0, 99], ip = 0, base = 0, halted = False,
                phase = 8, phased = False\<rparr>"
  let ?pvm4' = "\<lparr>mem = [8, 0, 4, 0, 99], ip = 2, base = 0, halted = False,
                phase = 8, phased = True\<rparr>"
  let ?pvm5' = "\<lparr>mem = [8, 0, 4, 0, 99], ip = 4, base = 0, halted = False,
                phase = 8, phased = True\<rparr>"
  let ?pvm = "\<lparr>mem = [], ip = 0, base = 0, halted = False, phase = 0, phased = False\<rparr>"
  let ?pv8 = "\<lparr>mem = [7], ip = 1, base = 1, halted = True\<rparr>"
  let ?fl = "Some \<lparr>commas = 3, numbers = [1, 0, 0, 0]\<rparr>"
  let ?pv8' = "\<lparr>mem = [1, 0, 0, 0], ip = 0, base = 0, halted = False\<rparr>"
  have a: "setsize ?al ?pv 4 = Inr ?pv1"
    by (simp add: eval_vm)
  have a6: "rdpar ?al ?pv6 0 = Inr (0, ?pv6')"
    by (simp add: eval_vm)
  have a7: "wrpar ?al ?pv7 0 = Inr (5, ?pv7')"
    by (simp add: eval_vm)
  have b: "copyvm ?al ?dst ?pv = Inr ?dst'"
    by (simp add: copyvm_def eval_vm)
  have c: "step ?al (?pv2, fifo_init, ?w) = Inr (False, ?pv2', fifo_init, ?w)"
    by (simp add: eval_vm)
  have d: "run ?al (?pv2, fifo_init, ?w) = Some (Inr (?pv3', fifo_init, ?w))"
    by (simp add: run.simps eval_vm)
  have e: "amp_step 7 (?pvm4, False, ?w) = Inr (None, ?pvm4', False, ?w)"
    by (simp add: eval_amp)
  have f: "amp_run ?pvm4 7 ?w = Some (Inr (8, ?pvm5', ?w))"
    by (simp add: amp_run_def amp_loop.simps eval_amp)
  have g: "amp_reset ?al [3, 0, 4, 0, 99] ?pvm 8 = Inr (?pvm4)"
    by (simp add: amp_reset_def)
  have h: "amp_reachable [3, 0, 4, 0, 99] ?pvm"
    by (rule amp_reachable.start)
  have l: "load ?al ?pv8 ?fl = Inr ?pv8'"
    by (simp add: load_def clean_def setsize_def)
  note t = size_never_decreases [where al = ?al and pv = ?pv and n = 4 and ?pv1.0 = ?pv1
      and ?pv6.0 = ?pv6 and ?m6.0 = 0 and ?q6.0 = 0 and pv6' = ?pv6'
      and ?pv7.0 = ?pv7 and ?m7.0 = 0 and ?q7.0 = 5 and pv7' = ?pv7'
      and dst = ?dst and src = ?pv and dst' = ?dst'
      and ?pv2.0 = ?pv2 and ?f2.0 = fifo_init and ?w2.0 = ?w and ?r2.0 = False
      and pv2' = ?pv2' and f2' = fifo_init and w2' = ?w
      and ?pv3.0 = ?pv2 and ?f3.0 = fifo_init and ?w3.0 = ?w
      and pv3' = ?pv3' and f3' = fifo_init and w3' = ?w
      and iv = 7 and ?pvm4.0 = ?pvm4 and ?e4.0 = False and ?w4.0 = ?w
      and ?r4.0 = None and pvm4' = ?pvm4' and e4' = False and w4' = ?w
      and ?pvm5.0 = ?pvm4 and ?iv5.0 = 7 and ?w5.0 = ?w and ?v5.0 = 8
      and pvm5' = ?pvm5' and w5' = ?w
      and code = "[3, 0, 4, 0, 99]" and pvm = ?pvm and ph = 8 and pvm' = ?pvm4
      and ?pv8.0 = ?pv8 and fl = ?fl and pv8' = ?pv8']
  from t a a6 a7 b c d e f g h l show ?thesis by simp
qed

text \<open>
  C9 as stated fails for \<^verbatim>\<open>load\<close> of \<^verbatim>\<open>intcode.c\<close>, which \<^verbatim>\<open>main\<close> calls a second time
  on \<^verbatim>\<open>vm[0]\<close>: a machine that holds a program of five numbers, loaded from a file of
  two numbers, has two cells.
\<close>

theorem load_shrinks_larger_machine:
  "load (\<lambda>n. True) \<lparr>mem = [1, 0, 0, 0, 99], ip = 0, base = 0, halted = False\<rparr>
       (Some \<lparr>commas = 1, numbers = [99, 0]\<rparr>)
     = Inr \<lparr>mem = [99, 0], ip = 0, base = 0, halted = False\<rparr>
   \<and> length (mem \<lparr>mem = [99, 0], ip = 0, base = 0, halted = False\<rparr>)
       < length (mem \<lparr>mem = [1, 0, 0, 0, 99], ip = 0, base = 0, halted = False\<rparr>)"
  by (simp add: load_def clean_def setsize_def)

section \<open>Reset and halted machines\<close>


lemma copyvm_eq:
  "copyvm al dst src =
     (if length (mem dst) < length (mem src) \<and> \<not> al (length (mem src) mod 2 ^ 61)
      then Inl ERR_MEM_OUT
      else if length (mem dst) < length (mem src) \<and> 2 ^ 61 \<le> length (mem src)
      then Inl UNDEFINED
      else Inr \<lparr>mem = mem src @ replicate (length (mem dst) - length (mem src)) 0,
                ip = ip src, base = base src, halted = halted src\<rparr>)"
  by (cases dst) (auto simp: copyvm_def setsize_def Let_def)

text \<open>
  C6: a machine copied (\<^verbatim>\<open>copyvm\<close>) from a program image, as \<^verbatim>\<open>load\<close> leaves it, holds
  the program in its first cells and zero in every cell beyond, up to the size it had
  before if that was larger; its instruction pointer and relative base are 0 and it is
  not halted. \<^verbatim>\<open>reset\<close> of the amplifier program leaves exactly the program, with the
  same registers. Both succeed whenever the machine is large enough already or the
  allocator grants the program's size. The image \<open>P\<close> that \<^verbatim>\<open>load\<close> leaves is the
  numbers of the file, one more than it has commas.
\<close>

theorem reset_restores_image:
  "(load al pv0 fl = Inr ref \<and> mem ref = P \<longrightarrow>
      (copyvm al dst ref = Inr dst' \<longrightarrow>
         mem dst' = P @ replicate (length (mem dst) - length P) 0
         \<and> ip dst' = 0 \<and> base dst' = 0 \<and> \<not> halted dst')
      \<and> (length P \<le> length (mem dst) \<or> al (length P) \<longrightarrow>
           (\<exists>d. copyvm al dst ref = Inr d))
      \<and> (\<exists>f. fl = Some f \<and> P = map scast (take (commas f + 1) (numbers f))
             \<and> length P = commas f + 1))
   \<and> (amp_reset al P pvm ph = Inr pvm' \<longrightarrow>
        mem pvm' = P \<and> ip pvm' = 0 \<and> base pvm' = 0 \<and> \<not> halted pvm')
   \<and> (length P \<le> length (mem pvm) \<or> al (length P) \<longrightarrow>
        (\<exists>p. amp_reset al P pvm ph = Inr p))"
proof -
  have A: "load al pv0 fl = Inr ref \<and> mem ref = P \<longrightarrow>
      (copyvm al dst ref = Inr dst' \<longrightarrow>
         mem dst' = P @ replicate (length (mem dst) - length P) 0
         \<and> ip dst' = 0 \<and> base dst' = 0 \<and> \<not> halted dst')
      \<and> (length P \<le> length (mem dst) \<or> al (length P) \<longrightarrow>
           (\<exists>d. copyvm al dst ref = Inr d))
      \<and> (\<exists>f. fl = Some f \<and> P = map scast (take (commas f + 1) (numbers f))
             \<and> length P = commas f + 1)"
  proof
    assume a: "load al pv0 fl = Inr ref \<and> mem ref = P"
    from load_Inr [of al pv0 fl ref] a obtain f where f: "fl = Some f"
      "commas f + 1 < 2 ^ 61" "al (commas f + 1)" "commas f + 1 \<le> length (numbers f)"
      "ref = \<lparr>mem = map scast (take (commas f + 1) (numbers f)),
              ip = 0, base = 0, halted = False\<rparr>"
      by blast
    from f(4, 5) a have P: "P = map scast (take (commas f + 1) (numbers f))"
      "length P = commas f + 1" "mem ref = P" "ip ref = 0" "base ref = 0" "\<not> halted ref"
      by auto
    have small: "length P < 2 ^ 61" using P(2) f(2) by simp
    have 1: "copyvm al dst ref = Inr dst' \<longrightarrow>
         mem dst' = P @ replicate (length (mem dst) - length P) 0
         \<and> ip dst' = 0 \<and> base dst' = 0 \<and> \<not> halted dst'"
      using P(3, 4, 5, 6) by (auto simp: copyvm_eq split: if_splits)
    have 2: "length P \<le> length (mem dst) \<or> al (length P) \<longrightarrow>
           (\<exists>d. copyvm al dst ref = Inr d)"
      using P(3) small by (auto simp: copyvm_eq)
    have 3: "\<exists>f. fl = Some f \<and> P = map scast (take (commas f + 1) (numbers f))
          \<and> length P = commas f + 1"
      using f(1) P(1, 2) by blast
    show "(copyvm al dst ref = Inr dst' \<longrightarrow>
         mem dst' = P @ replicate (length (mem dst) - length P) 0
         \<and> ip dst' = 0 \<and> base dst' = 0 \<and> \<not> halted dst')
      \<and> (length P \<le> length (mem dst) \<or> al (length P) \<longrightarrow>
           (\<exists>d. copyvm al dst ref = Inr d))
      \<and> (\<exists>f. fl = Some f \<and> P = map scast (take (commas f + 1) (numbers f))
             \<and> length P = commas f + 1)"
      by (rule conjI [OF 1 conjI [OF 2 3]])
  qed
  have B: "amp_reset al P pvm ph = Inr pvm' \<longrightarrow>
        mem pvm' = P \<and> ip pvm' = 0 \<and> base pvm' = 0 \<and> \<not> halted pvm'"
    by (auto simp: amp_reset_def split: if_splits)
  have C: "length P \<le> length (mem pvm) \<or> al (length P) \<longrightarrow>
        (\<exists>p. amp_reset al P pvm ph = Inr p)"
    by (auto simp: amp_reset_def)
  show ?thesis by (rule conjI [OF A conjI [OF B C]])
qed

theorem reset_restores_image_witness:
  "load (\<lambda>n. n \<le> 4) \<lparr>mem = [7], ip = 1, base = 1, halted = True\<rparr>
        (Some \<lparr>commas = 3, numbers = [1, 0, 0, 0]\<rparr>)
     = Inr \<lparr>mem = [1, 0, 0, 0], ip = 0, base = 0, halted = False\<rparr>
   \<and> copyvm (\<lambda>n. n \<le> 4) \<lparr>mem = [2, 3, 4, 5, 6, 7], ip = 5, base = 9, halted = True\<rparr>
        \<lparr>mem = [1, 0, 0, 0], ip = 0, base = 0, halted = False\<rparr>
     = Inr \<lparr>mem = [1, 0, 0, 0, 0, 0], ip = 0, base = 0, halted = False\<rparr>
   \<and> amp_reset (\<lambda>n. n \<le> 4) [1, 0, 0, 0]
        \<lparr>mem = [2, 3], ip = 5, base = 9, halted = True, phase = 1, phased = True\<rparr> 3
     = Inr \<lparr>mem = [1, 0, 0, 0], ip = 0, base = 0, halted = False, phase = 3, phased = False\<rparr>"
proof -
  let ?al = "\<lambda>n::nat. n \<le> 4"
  let ?pv0 = "\<lparr>mem = [7], ip = 1, base = 1, halted = True\<rparr>"
  let ?ref = "\<lparr>mem = [1, 0, 0, 0], ip = 0, base = 0, halted = False\<rparr>"
  let ?dst = "\<lparr>mem = [2, 3, 4, 5, 6, 7], ip = 5, base = 9, halted = True\<rparr>"
  let ?pvm = "\<lparr>mem = [2, 3], ip = 5, base = 9, halted = True, phase = 1, phased = True\<rparr>"
  have l: "load ?al ?pv0 (Some \<lparr>commas = 3, numbers = [1, 0, 0, 0]\<rparr>) = Inr ?ref"
    by (simp add: load_def clean_def setsize_def)
  let ?d = "\<lparr>mem = [1, 0, 0, 0, 0, 0], ip = 0, base = 0, halted = False\<rparr>"
  let ?p = "\<lparr>mem = [1, 0, 0, 0], ip = 0, base = 0, halted = False, phase = 3, phased = False\<rparr>"
  have d: "copyvm ?al ?dst ?ref = Inr ?d"
    by (simp add: copyvm_eq replicate_num)
  have p: "amp_reset ?al [1, 0, 0, 0] ?pvm 3 = Inr ?p"
    by (simp add: amp_reset_def)
  note t = reset_restores_image [where al = ?al and ?pv0.0 = ?pv0 and P = "[1, 0, 0, 0]"
      and fl = "Some \<lparr>commas = 3, numbers = [1, 0, 0, 0]\<rparr>" and ref = ?ref and dst = ?dst and pvm = ?pvm and ph = 3 and dst' = ?d and pvm' = ?p]
  from t l d p show ?thesis by simp
qed

text \<open>
  C10: \<^verbatim>\<open>run\<close> on a machine that is halted already returns at once: the machine
  (memory, size, instruction pointer, relative base, halted flag), the queue and the
  world are as they were; in the amplifier program the call returns its input value.
\<close>

theorem run_halted_is_noop:
  "(halted pv \<longrightarrow> run al (pv, f, w) = Some (Inr (pv, f, w)))
   \<and> (halted pvm \<longrightarrow> amp_run pvm inputval w' = Some (Inr (inputval, pvm, w')))"
  by (simp add: run.simps amp_run_def amp_loop.simps)

theorem run_halted_is_noop_witness:
  "halted \<lparr>mem = [1, 0, 0, 0, 99], ip = 0, base = 3, halted = True\<rparr>
   \<and> run (\<lambda>n. True) (\<lparr>mem = [1, 0, 0, 0, 99], ip = 0, base = 3, halted = True\<rparr>, fifo_init,
          \<lparr>stdin = [5], tty = True, stdout = []\<rparr>)
       = Some (Inr (\<lparr>mem = [1, 0, 0, 0, 99], ip = 0, base = 3, halted = True\<rparr>, fifo_init,
          \<lparr>stdin = [5], tty = True, stdout = []\<rparr>))
   \<and> halted \<lparr>mem = [4, 0, 99], ip = 0, base = 0, halted = True, phase = 2, phased = True\<rparr>
   \<and> amp_run \<lparr>mem = [4, 0, 99], ip = 0, base = 0, halted = True, phase = 2, phased = True\<rparr>
        42 \<lparr>stdin = [5], tty = True, stdout = []\<rparr>
       = Some (Inr (42, \<lparr>mem = [4, 0, 99], ip = 0, base = 0, halted = True,
                          phase = 2, phased = True\<rparr>, \<lparr>stdin = [5], tty = True, stdout = []\<rparr>))"
  using run_halted_is_noop [where pv = "\<lparr>mem = [1, 0, 0, 0, 99], ip = 0, base = 3, halted = True\<rparr>"
      and al = "\<lambda>n. True" and f = fifo_init and w = "\<lparr>stdin = [5], tty = True, stdout = []\<rparr>"
      and pvm = "\<lparr>mem = [4, 0, 99], ip = 0, base = 0, halted = True, phase = 2, phased = True\<rparr>"
      and inputval = 42 and w' = "\<lparr>stdin = [5], tty = True, stdout = []\<rparr>"]
  by simp


section \<open>Resolving parameters\<close>


lemma sint_nonneg_uint:
  fixes a :: int64
  assumes "0 \<le> sint a"
  shows "uint a < 2 ^ 63" and "sint a = uint a"
proof -
  have s: "sint a = signed_take_bit 63 (uint a)"
    by (simp add: sint_uint)
  have lt: "uint a < 2 ^ 64"
    using uint_lt2p [of a] by simp
  show u: "uint a < 2 ^ 63"
  proof (rule ccontr)
    assume "\<not> uint a < 2 ^ 63"
    then have "2 ^ 63 \<le> uint a" by simp
    from signed_take_bit_int_less_eq [OF this]
    have "sint a \<le> uint a - 2 ^ Suc 63"
      unfolding s .
    with lt assms show False by simp
  qed
  have "- (2 ^ 63) \<le> uint a" using uint_ge_0 [of a] by (smt (verit) zero_le_power)
  from signed_take_bit_int_eq_self [OF this u] show "sint a = uint a"
    by (simp add: s)
qed

lemma sint_nonneg_unat:
  fixes a :: int64
  assumes "0 \<le> sint a"
  shows "unat a < 2 ^ 63" and "sint a = int (unat a)" and "nat (sint a) = unat a"
proof -
  have iu: "int (unat a) = uint a"
    by simp
  from sint_nonneg_uint(2) [OF assms] iu show s: "sint a = int (unat a)"
    by (simp only:)
  from sint_nonneg_uint(1) [OF assms] iu have "int (unat a) < int (2 ^ 63)"
    by (simp only: of_nat_power of_nat_numeral)
  then show "unat a < 2 ^ 63"
    by (simp only: of_nat_less_iff)
  show "nat (sint a) = unat a"
    by (simp only: s nat_int)
qed

lemma unat_succ_nonneg:
  fixes a :: int64
  assumes "0 \<le> sint a"
  shows "unat (a + 1) = unat a + 1"
proof -
  have "unat a + unat (1 :: int64) < 2 ^ LENGTH(64)"
    using sint_nonneg_unat(1) [OF assms] by simp
  then have "unat (a + 1) = unat a + unat (1 :: int64)"
    by (simp only: unat_add_lem)
  then show ?thesis by simp
qed

lemma setsize_eq:
  "setsize al pv n =
     (if length (mem pv) < n
      then (if \<not> al (n mod 2 ^ 61) then Inl ERR_MEM_OUT
            else if n < 2 ^ 61
            then Inr (pv\<lparr>mem := mem pv @ replicate (n - length (mem pv)) 0\<rparr>)
            else Inl UNDEFINED)
      else Inr pv)"
  by (simp add: setsize_def)

lemma setsize_wrapped:
  "length (mem pv) < n \<Longrightarrow> 2 ^ 61 \<le> n \<Longrightarrow>
     setsize al pv n = (if al (n mod 2 ^ 61) then Inl UNDEFINED else Inl ERR_MEM_OUT)"
  by (simp add: setsize_def)

text \<open>What \<^verbatim>\<open>rdpar\<close> and \<^verbatim>\<open>wrpar\<close> do, by the address the parameter refers to.\<close>

lemma rdpar_imm:
  "(modes smod 10) AND IMM \<noteq> 0 \<Longrightarrow>
     rdpar al pv modes = Inr (mem pv ! unat (ip pv), pv\<lparr>ip := ip pv + 1\<rparr>)"
  by (simp add: rdpar_def Let_def)

lemma rdpar_negative:
  "(modes smod 10) AND IMM = 0 \<Longrightarrow> sint (par_address pv modes) < 0 \<Longrightarrow>
     rdpar al pv modes = Inl ERR_PAR_READ"
  by (auto simp: rdpar_def par_address_def Let_def split: if_splits)

lemma rdpar_inside:
  "(modes smod 10) AND IMM = 0 \<Longrightarrow> 0 \<le> sint (par_address pv modes) \<Longrightarrow>
   unat (par_address pv modes) < length (mem pv) \<Longrightarrow>
     rdpar al pv modes = Inr (mem pv ! unat (par_address pv modes), pv\<lparr>ip := ip pv + 1\<rparr>)"
  by (auto simp: rdpar_def par_address_def Let_def split: if_splits)

lemma rdpar_beyond:
  assumes "(modes smod 10) AND IMM = 0" and "0 \<le> sint (par_address pv modes)"
    and "length (mem pv) \<le> unat (par_address pv modes)"
  shows "rdpar al pv modes =
     (if \<not> al ((unat (par_address pv modes) + 1) mod 2 ^ 61) then Inl ERR_MEM_OUT
      else if unat (par_address pv modes) + 1 < 2 ^ 61
      then Inr (0, pv\<lparr>ip := ip pv + 1,
                      mem := mem pv @
                        replicate (unat (par_address pv modes) + 1 - length (mem pv)) 0\<rparr>)
      else Inl UNDEFINED)"
proof -
  let ?a = "par_address pv modes"
  have u: "unat (?a + 1) = unat ?a + 1"
    using assms(2) by (rule unat_succ_nonneg)
  have nth: "(mem pv @ replicate (unat ?a + 1 - length (mem pv)) 0) ! unat ?a = 0"
    using assms(3) by (simp add: nth_append)
  let ?pv1 = "pv\<lparr>ip := ip pv + 1\<rparr>"
  have r: "rdpar al pv modes =
      (case setsize al ?pv1 (unat ?a + 1) of
         Inl e \<Rightarrow> Inl e
       | Inr pv2 \<Rightarrow> Inr (mem pv2 ! unat ?a, pv2))"
  proof (cases "(modes smod 10) AND REL = 0")
    case True
    then have pa: "?a = mem pv ! unat (ip pv)" by (simp add: par_address_def Let_def)
    show ?thesis using assms u True unfolding pa
      by (simp add: rdpar_def Let_def cong: sum.case_cong)
  next
    case False
    then have pa: "?a = mem pv ! unat (ip pv) + base pv" by (simp add: par_address_def Let_def)
    show ?thesis using assms u False unfolding pa
      by (simp add: rdpar_def Let_def cong: sum.case_cong)
  qed
  have s: "setsize al ?pv1 (unat ?a + 1) =
      (if \<not> al ((unat ?a + 1) mod 2 ^ 61) then Inl ERR_MEM_OUT
       else if unat ?a + 1 < 2 ^ 61
       then Inr (?pv1\<lparr>mem := mem pv @ replicate (unat ?a + 1 - length (mem pv)) 0\<rparr>)
       else Inl UNDEFINED)"
    using assms(3) by (simp add: setsize_def)
  show ?thesis unfolding r s using nth by simp
qed

lemma wrpar_negative:
  "sint (par_address pv modes) < 0 \<Longrightarrow> wrpar al pv modes = Inl ERR_PAR_WRITE"
  by (auto simp: wrpar_def par_address_def Let_def split: if_splits)

lemma wrpar_inside:
  "0 \<le> sint (par_address pv modes) \<Longrightarrow> unat (par_address pv modes) < length (mem pv) \<Longrightarrow>
     wrpar al pv modes = Inr (par_address pv modes, pv\<lparr>ip := ip pv + 1\<rparr>)"
  by (auto simp: wrpar_def par_address_def Let_def split: if_splits)

lemma wrpar_beyond:
  assumes "0 \<le> sint (par_address pv modes)"
    and "length (mem pv) \<le> unat (par_address pv modes)"
  shows "wrpar al pv modes =
     (if \<not> al ((unat (par_address pv modes) + 1) mod 2 ^ 61) then Inl ERR_MEM_OUT
      else if unat (par_address pv modes) + 1 < 2 ^ 61
      then Inr (par_address pv modes,
                pv\<lparr>ip := ip pv + 1,
                   mem := mem pv @
                     replicate (unat (par_address pv modes) + 1 - length (mem pv)) 0\<rparr>)
      else Inl UNDEFINED)"
proof -
  let ?a = "par_address pv modes"
  have u: "unat (?a + 1) = unat ?a + 1"
    using assms(1) by (rule unat_succ_nonneg)
  let ?pv1 = "pv\<lparr>ip := ip pv + 1\<rparr>"
  have r: "wrpar al pv modes =
      (case setsize al ?pv1 (unat ?a + 1) of
         Inl e \<Rightarrow> Inl e
       | Inr pv2 \<Rightarrow> Inr (?a, pv2))"
  proof (cases "(modes smod 10) AND REL = 0")
    case True
    then have pa: "?a = mem pv ! unat (ip pv)" by (simp add: par_address_def Let_def)
    show ?thesis using assms u True unfolding pa
      by (simp add: wrpar_def Let_def cong: sum.case_cong)
  next
    case False
    then have pa: "?a = mem pv ! unat (ip pv) + base pv" by (simp add: par_address_def Let_def)
    show ?thesis using assms u False unfolding pa
      by (simp add: wrpar_def Let_def cong: sum.case_cong)
  qed
  have s: "setsize al ?pv1 (unat ?a + 1) =
      (if \<not> al ((unat ?a + 1) mod 2 ^ 61) then Inl ERR_MEM_OUT
       else if unat ?a + 1 < 2 ^ 61
       then Inr (?pv1\<lparr>mem := mem pv @ replicate (unat ?a + 1 - length (mem pv)) 0\<rparr>)
       else Inl UNDEFINED)"
    using assms(2) by (simp add: setsize_def)
  show ?thesis unfolding r s by simp
qed


section \<open>Negative addresses and growth on demand\<close>


text \<open>
  C1 (as the code has it): for a positional or relative read parameter and for the
  write parameter, a negative address is a fatal error (\<^verbatim>\<open>ERR_PAR_READ\<close>,
  \<^verbatim>\<open>ERR_PAR_WRITE\<close>); an address inside the memory is used as it is; an address at or
  beyond the size, and such that the size it asks for is below \<open>2 ^ 61\<close> cells (the
  count of bytes does not wrap), makes the memory grow to that address, the new cells
  zero, and the read parameter is then 0, provided \<^verbatim>\<open>realloc\<close> grants the new size.
  When it does not, the turn ends with the fatal error \<^verbatim>\<open>ERR_MEM_OUT\<close>.
\<close>

theorem address_negative_faults_beyond_grows:
  "((modes smod 10) AND IMM = 0 \<and> sint (par_address pv modes) < 0 \<longrightarrow>
      rdpar al pv modes = Inl ERR_PAR_READ)
   \<and> (sint (par_address pv modes) < 0 \<longrightarrow> wrpar al pv modes = Inl ERR_PAR_WRITE)
   \<and> (0 \<le> sint (par_address pv modes) \<and> length (mem pv) \<le> unat (par_address pv modes)
        \<and> unat (par_address pv modes) + 1 < 2 ^ 61 \<longrightarrow>
        ((modes smod 10) AND IMM = 0 \<longrightarrow>
           rdpar al pv modes =
             (if al (unat (par_address pv modes) + 1)
              then Inr (0, pv\<lparr>ip := ip pv + 1,
                              mem := mem pv @
                                replicate (unat (par_address pv modes) + 1 - length (mem pv)) 0\<rparr>)
              else Inl ERR_MEM_OUT))
        \<and> wrpar al pv modes =
             (if al (unat (par_address pv modes) + 1)
              then Inr (par_address pv modes,
                        pv\<lparr>ip := ip pv + 1,
                           mem := mem pv @
                             replicate (unat (par_address pv modes) + 1 - length (mem pv)) 0\<rparr>)
              else Inl ERR_MEM_OUT))
   \<and> (0 \<le> sint (par_address pv modes) \<and> unat (par_address pv modes) < length (mem pv) \<longrightarrow>
        ((modes smod 10) AND IMM = 0 \<longrightarrow>
           rdpar al pv modes =
             Inr (mem pv ! unat (par_address pv modes), pv\<lparr>ip := ip pv + 1\<rparr>))
        \<and> wrpar al pv modes = Inr (par_address pv modes, pv\<lparr>ip := ip pv + 1\<rparr>))
   \<and> (rdpar al pv modes = Inl e \<longrightarrow> rdpars al (Suc n) pv modes = Inl e)
   \<and> (rdpar al pv modes = Inr (q, pv') \<and> rdpars al n pv' (modes sdiv 10) = Inl e \<longrightarrow>
        rdpars al (Suc n) pv modes = Inl e)
   \<and> (fetch pv0 = Inr (instr, dfn, pv) \<and> rdpars al (ic dfn) pv (instr sdiv 100) = Inl e \<longrightarrow>
        step al (pv0, f, w) = Inl e)
   \<and> (fetch pv0 = Inr (instr, dfn, pv1) \<and>
        rdpars al (ic dfn) pv1 (instr sdiv 100) = Inr (ps, modes, pv) \<and>
        oc dfn \<noteq> 0 \<and> wrpar al pv modes = Inl e \<longrightarrow>
        step al (pv0, f, w) = Inl e)"
proof (intro conjI impI allI)
  assume "(modes smod 10) AND IMM = 0 \<and> sint (par_address pv modes) < 0"
  then show "rdpar al pv modes = Inl ERR_PAR_READ"
    by (simp add: rdpar_negative)
next
  assume "sint (par_address pv modes) < 0"
  then show "wrpar al pv modes = Inl ERR_PAR_WRITE"
    by (rule wrpar_negative)
next
  assume "0 \<le> sint (par_address pv modes) \<and> length (mem pv) \<le> unat (par_address pv modes)
        \<and> unat (par_address pv modes) + 1 < 2 ^ 61"
    and "(modes smod 10) AND IMM = 0"
  then show "rdpar al pv modes =
             (if al (unat (par_address pv modes) + 1)
              then Inr (0, pv\<lparr>ip := ip pv + 1,
                              mem := mem pv @
                                replicate (unat (par_address pv modes) + 1 - length (mem pv)) 0\<rparr>)
              else Inl ERR_MEM_OUT)"
    using rdpar_beyond [of modes pv al] by simp
next
  assume "0 \<le> sint (par_address pv modes) \<and> length (mem pv) \<le> unat (par_address pv modes)
        \<and> unat (par_address pv modes) + 1 < 2 ^ 61"
  then show "wrpar al pv modes =
             (if al (unat (par_address pv modes) + 1)
              then Inr (par_address pv modes,
                        pv\<lparr>ip := ip pv + 1,
                           mem := mem pv @
                             replicate (unat (par_address pv modes) + 1 - length (mem pv)) 0\<rparr>)
              else Inl ERR_MEM_OUT)"
    using wrpar_beyond [of pv modes al] by simp
next
  assume "0 \<le> sint (par_address pv modes) \<and> unat (par_address pv modes) < length (mem pv)"
    and "(modes smod 10) AND IMM = 0"
  then show "rdpar al pv modes =
             Inr (mem pv ! unat (par_address pv modes), pv\<lparr>ip := ip pv + 1\<rparr>)"
    by (simp add: rdpar_inside)
next
  assume "0 \<le> sint (par_address pv modes) \<and> unat (par_address pv modes) < length (mem pv)"
  then show "wrpar al pv modes = Inr (par_address pv modes, pv\<lparr>ip := ip pv + 1\<rparr>)"
    by (simp add: wrpar_inside)
next
  assume "rdpar al pv modes = Inl e"
  then show "rdpars al (Suc n) pv modes = Inl e" by simp
next
  assume "rdpar al pv modes = Inr (q, pv') \<and> rdpars al n pv' (modes sdiv 10) = Inl e"
  then show "rdpars al (Suc n) pv modes = Inl e" by simp
next
  assume "fetch pv0 = Inr (instr, dfn, pv) \<and> rdpars al (ic dfn) pv (instr sdiv 100) = Inl e"
  then show "step al (pv0, f, w) = Inl e" by (simp add: step_def)
next
  assume "fetch pv0 = Inr (instr, dfn, pv1) \<and>
        rdpars al (ic dfn) pv1 (instr sdiv 100) = Inr (ps, modes, pv) \<and>
        oc dfn \<noteq> 0 \<and> wrpar al pv modes = Inl e"
  then show "step al (pv0, f, w) = Inl e" by (simp add: step_def wrpars_def)
qed

text \<open>
  C1 as stated fails when the allocator refuses: the output instruction at 0 reads
  through the address \<open>2 ^ 60\<close>, not negative and beyond the three cells of the memory;
  the size asked for, \<open>2 ^ 60 + 1\<close> cells, is below \<open>2 ^ 61\<close>, and an allocator that
  grants fewer than \<open>2 ^ 60\<close> cells makes the turn end with \<^verbatim>\<open>ERR_MEM_OUT\<close>, a fault and
  no growth.
\<close>

theorem growth_refused_is_fatal:
  "0 \<le> sint (par_address \<lparr>mem = [4, 2 ^ 60, 99], ip = 1, base = 0, halted = False\<rparr> 0)
   \<and> length (mem \<lparr>mem = [4, 2 ^ 60, 99], ip = 1, base = 0, halted = False\<rparr>)
        \<le> unat (par_address \<lparr>mem = [4, 2 ^ 60, 99], ip = 1, base = 0, halted = False\<rparr> 0)
   \<and> step (\<lambda>n. n < 2 ^ 60)
        (\<lparr>mem = [4, 2 ^ 60, 99], ip = 0, base = 0, halted = False\<rparr>, fifo_init,
         \<lparr>stdin = [], tty = False, stdout = []\<rparr>) = Inl ERR_MEM_OUT"
  by (simp add: par_address_def eval_vm)

theorem address_negative_faults_beyond_grows_witness:
  "rdpar (\<lambda>n. n \<le> 8) \<lparr>mem = [4, - 3, 99], ip = 1, base = 0, halted = False\<rparr> 0
     = Inl ERR_PAR_READ
   \<and> wrpar (\<lambda>n. n \<le> 8) \<lparr>mem = [4, - 3, 99], ip = 1, base = 0, halted = False\<rparr> 0
     = Inl ERR_PAR_WRITE
   \<and> rdpar (\<lambda>n. n \<le> 8) \<lparr>mem = [204, 3, 99], ip = 1, base = 2, halted = False\<rparr> 2
     = Inr (0, \<lparr>mem = [204, 3, 99, 0, 0, 0], ip = 2, base = 2, halted = False\<rparr>)
   \<and> wrpar (\<lambda>n. n \<le> 8) \<lparr>mem = [204, 3, 99], ip = 1, base = 2, halted = False\<rparr> 2
     = Inr (5, \<lparr>mem = [204, 3, 99, 0, 0, 0], ip = 2, base = 2, halted = False\<rparr>)
   \<and> rdpar (\<lambda>n. n \<le> 8) \<lparr>mem = [4, 2, 99], ip = 1, base = 0, halted = False\<rparr> 0
     = Inr (99, \<lparr>mem = [4, 2, 99], ip = 2, base = 0, halted = False\<rparr>)
   \<and> step (\<lambda>n. n \<le> 8) (\<lparr>mem = [4, - 3, 99], ip = 0, base = 0, halted = False\<rparr>,
         fifo_init, \<lparr>stdin = [], tty = False, stdout = []\<rparr>) = Inl ERR_PAR_READ
   \<and> step (\<lambda>n. n \<le> 8) (\<lparr>mem = [3, - 3, 99], ip = 0, base = 0, halted = False\<rparr>,
         fifo_init, \<lparr>stdin = [], tty = False, stdout = []\<rparr>) = Inl ERR_PAR_WRITE"
proof -
  let ?al = "\<lambda>n::nat. n \<le> 8"
  let ?w = "\<lparr>stdin = [], tty = False, stdout = []\<rparr>"
  let ?neg = "\<lparr>mem = [4, - 3, 99], ip = 1, base = 0, halted = False\<rparr>"
  let ?far = "\<lparr>mem = [204, 3, 99], ip = 1, base = 2, halted = False\<rparr>"
  let ?in = "\<lparr>mem = [4, 2, 99], ip = 1, base = 0, halted = False\<rparr>"
  let ?out0 = "\<lparr>mem = [4, - 3, 99], ip = 0, base = 0, halted = False\<rparr>"
  let ?inp0 = "\<lparr>mem = [3, - 3, 99], ip = 0, base = 0, halted = False\<rparr>"
  let ?inp1 = "\<lparr>mem = [3, - 3, 99], ip = 1, base = 0, halted = False\<rparr>"
  have neg: "(0 smod 10) AND IMM = 0 \<and> sint (par_address ?neg 0) < 0"
    by (simp add: par_address_def IMM_def REL_def signed_modulo_int_def)
  have far: "0 \<le> sint (par_address ?far 2) \<and> length (mem ?far) \<le> unat (par_address ?far 2)"
    "(2 smod 10) AND IMM = 0" "unat (par_address ?far 2) = 5" "?al (5 + 1)"
    "unat (par_address ?far 2) + 1 < 2 ^ 61"
    by (simp_all add: par_address_def IMM_def REL_def signed_modulo_int_def)
  have ins: "0 \<le> sint (par_address ?in 0) \<and> unat (par_address ?in 0) < length (mem ?in)"
    "unat (par_address ?in 0) = 2"
    by (simp_all add: par_address_def IMM_def REL_def signed_modulo_int_def)
  have f1: "fetch ?out0 = Inr (4, getdef 4, ?neg)"
    "rdpar ?al ?neg (4 sdiv 100) = Inl ERR_PAR_READ" "ic (getdef 4) = Suc 0"
    by (simp_all add: eval_vm)
  have f2: "fetch ?inp0 = Inr (3, getdef 3, ?inp1)"
    "rdpars ?al (ic (getdef 3)) ?inp1 (3 sdiv 100) = Inr ([], 0, ?inp1)"
    "oc (getdef 3) \<noteq> 0" "sint (par_address ?inp1 0) < 0"
    by (simp_all add: eval_vm par_address_def)
  note t = address_negative_faults_beyond_grows
  from t [of 0 ?neg ?al] neg
  have a: "rdpar ?al ?neg 0 = Inl ERR_PAR_READ" "wrpar ?al ?neg 0 = Inl ERR_PAR_WRITE"
    by simp_all
  from t [of 2 ?far ?al] far
  have b: "rdpar ?al ?far 2
             = Inr (0, \<lparr>mem = [204, 3, 99, 0, 0, 0], ip = 2, base = 2, halted = False\<rparr>)"
    "wrpar ?al ?far 2
             = Inr (5, \<lparr>mem = [204, 3, 99, 0, 0, 0], ip = 2, base = 2, halted = False\<rparr>)"
    by (simp_all add: replicate_num par_address_def REL_def signed_modulo_int_def)
  from t [of 0 ?in ?al] ins
  have c: "rdpar ?al ?in 0 = Inr (99, \<lparr>mem = [4, 2, 99], ip = 2, base = 0, halted = False\<rparr>)"
    by (simp add: IMM_def signed_modulo_int_def)
  from t [where al = ?al and pv = ?neg and modes = "4 sdiv 100" and e = ERR_PAR_READ
      and n = 0 and ?pv0.0 = ?out0 and instr = 4 and dfn = "getdef 4" and f = fifo_init
      and w = ?w] f1
  have d: "step ?al (?out0, fifo_init, ?w) = Inl ERR_PAR_READ"
    by simp
  from t [where al = ?al and pv = ?inp1 and modes = 0 and e = ERR_PAR_WRITE
      and ?pv0.0 = ?inp0 and instr = 3 and dfn = "getdef 3" and f = fifo_init
      and w = ?w and ?pv1.0 = ?inp1 and ps = "[]"] f2
  have e: "step ?al (?inp0, fifo_init, ?w) = Inl ERR_PAR_WRITE"
    by simp
  from a b c d e show ?thesis by simp
qed


section \<open>The checks at fetch\<close>


lemma fetch_fault_iff:
  "(\<exists>e. fetch pv = Inl e) \<longleftrightarrow>
     sint (ip pv) < 0 \<or> length (mem pv) \<le> unat (ip pv) \<or>
     (0 < pc (getdef (sint (mem pv ! unat (ip pv)) smod 100)) \<and>
      length (mem pv) \<le>
        unat (ip pv + 1 + of_nat (pc (getdef (sint (mem pv ! unat (ip pv)) smod 100)))))"
  by (auto simp: fetch_def Let_def)

text \<open>
  C3 (what the code does): the memory is the two cells \<open>104, 7\<close>, an output
  instruction and its one parameter, both inside the memory, with the instruction
  pointer at 0. The turn ends with \<^verbatim>\<open>ERR_IP_INSTR\<close>: the check compares the pointer
  after the last parameter with the size by \<^verbatim>\<open>>=\<close>. With one more cell behind the
  parameter the same instruction is executed.
\<close>

theorem fetch_faults_on_instruction_at_end_of_memory:
  "0 \<le> sint (ip \<lparr>mem = [104, 7], ip = 0, base = 0, halted = False\<rparr>)
   \<and> unat (ip \<lparr>mem = [104, 7], ip = 0, base = 0, halted = False\<rparr>)
        + pc (getdef (sint (mem \<lparr>mem = [104, 7], ip = 0, base = 0, halted = False\<rparr> ! 0) smod 100))
        < length (mem \<lparr>mem = [104, 7], ip = 0, base = 0, halted = False\<rparr>)
   \<and> fetch \<lparr>mem = [104, 7], ip = 0, base = 0, halted = False\<rparr> = Inl ERR_IP_INSTR
   \<and> step (\<lambda>n. True) (\<lparr>mem = [104, 7], ip = 0, base = 0, halted = False\<rparr>, fifo_init,
        \<lparr>stdin = [], tty = False, stdout = []\<rparr>) = Inl ERR_IP_INSTR
   \<and> step (\<lambda>n. True) (\<lparr>mem = [104, 7, 99], ip = 0, base = 0, halted = False\<rparr>, fifo_init,
        \<lparr>stdin = [], tty = False, stdout = []\<rparr>)
       = Inr (True, \<lparr>mem = [104, 7, 99], ip = 2, base = 0, halted = False\<rparr>,
              fifopush 7 (fifo_init, \<lparr>stdin = [], tty = False, stdout = []\<rparr>))"
  by (simp add: eval_vm)


section \<open>Operands of an instruction\<close>


lemma unat_add_small:
  fixes a :: int64
  assumes "unat a < 2 ^ 63"
  shows "unat (a + 1) = unat a + 1" and "unat (a + 2) = unat a + 2"
    and "unat (a + 3) = unat a + 3" and "unat (a + 4) = unat a + 4"
proof -
  have k: "unat (a + k) = unat a + unat k" if "unat k \<le> 4" for k :: int64
  proof -
    have "unat a + unat k < 2 ^ LENGTH(64)"
      using assms that by simp
    then show ?thesis by (simp only: unat_add_lem)
  qed
  show "unat (a + 1) = unat a + 1" using k [of 1] by simp
  show "unat (a + 2) = unat a + 2" using k [of 2] by simp
  show "unat (a + 3) = unat a + 3" using k [of 3] by simp
  show "unat (a + 4) = unat a + 4" using k [of 4] by simp
qed

lemma mode_bits:
  "(POS AND IMM) = 0" "(REL AND IMM) = 0" "(IMM AND IMM) \<noteq> 0"
  "(POS AND REL) = 0" "(REL AND REL) \<noteq> 0" "(IMM AND REL) = 0"
  by (simp_all add: POS_def IMM_def REL_def)

lemma rdpar_spec:
  assumes "rdpar al pv modes = Inr (q, pv')"
    and "modes smod 10 = m" and "m = POS \<or> m = IMM \<or> m = REL"
  shows "q = spec_operand pv m (mem pv ! unat (ip pv))
         \<and> ip pv' = ip pv + 1 \<and> base pv' = base pv \<and> halted pv' = halted pv
         \<and> (\<exists>k. mem pv' = mem pv @ replicate k 0)"
proof (cases "m = IMM")
  case True
  with assms(2) have "(modes smod 10) AND IMM \<noteq> 0"
    by (simp add: IMM_def)
  from rdpar_imm [OF this, of al pv] assms(1) True show ?thesis
    by (auto simp: spec_operand_def)
next
  case False
  with assms(3) have m: "m = POS \<or> m = REL" by simp
  then have imm: "(modes smod 10) AND IMM = 0"
    using assms(2) mode_bits by auto
  have pa: "par_address pv modes = (if m = REL then mem pv ! unat (ip pv) + base pv
                                  else mem pv ! unat (ip pv))"
    using m assms(2) mode_bits by (auto simp: par_address_def POS_def REL_def)
  let ?a = "par_address pv modes"
  have nn: "0 \<le> sint ?a"
  proof (rule ccontr)
    assume "\<not> 0 \<le> sint ?a"
    then have "rdpar al pv modes = Inl ERR_PAR_READ"
      using rdpar_negative [OF imm] by simp
    with assms(1) show False by simp
  qed
  show ?thesis
  proof (cases "unat ?a < length (mem pv)")
    case True
    from rdpar_inside [OF imm nn True, of al] assms(1) True pa False
    show ?thesis by (auto simp: spec_operand_def Let_def)
  next
    case beyond: False
    then have "length (mem pv) \<le> unat ?a" by simp
    from rdpar_beyond [OF imm nn this, of al] assms(1) beyond pa False
    show ?thesis by (auto simp: spec_operand_def Let_def split: if_splits)
  qed
qed

lemma wrpar_spec:
  assumes "wrpar al pv modes = Inr (t, pv')"
    and "modes smod 10 = m" and "m = POS \<or> m = REL"
  shows "t = spec_target pv m (mem pv ! unat (ip pv))
         \<and> ip pv' = ip pv + 1 \<and> base pv' = base pv \<and> halted pv' = halted pv
         \<and> 0 \<le> sint t \<and> unat t < length (mem pv')
         \<and> (\<exists>k. mem pv' = mem pv @ replicate k 0)"
proof -
  have pa: "par_address pv modes = spec_target pv m (mem pv ! unat (ip pv))"
    using assms(2,3) mode_bits by (auto simp: par_address_def spec_target_def POS_def REL_def)
  let ?a = "par_address pv modes"
  have nn: "0 \<le> sint ?a"
  proof (rule ccontr)
    assume "\<not> 0 \<le> sint ?a"
    then have "wrpar al pv modes = Inl ERR_PAR_WRITE"
      using wrpar_negative by simp
    with assms(1) show False by simp
  qed
  show ?thesis
  proof (cases "unat ?a < length (mem pv)")
    case True
    from wrpar_inside [OF nn True, of al] assms(1) True pa nn
    show ?thesis by auto
  next
    case beyond: False
    then have "length (mem pv) \<le> unat ?a" by simp
    from wrpar_beyond [OF nn this, of al] assms(1) beyond pa nn
    show ?thesis by (auto split: if_splits)
  qed
qed

lemma spec_operand_grown:
  "mem pv' = mem pv @ replicate k 0 \<Longrightarrow> base pv' = base pv \<Longrightarrow>
     spec_operand pv' m raw = spec_operand pv m raw"
  by (auto simp: spec_operand_def Let_def nth_append)

lemma spec_target_base:
  "base pv' = base pv \<Longrightarrow> spec_target pv' m raw = spec_target pv m raw"
  by (simp add: spec_target_def)



lemma fetch_InrD:
  assumes "fetch pv = Inr (instr, dfn, pv1)"
  shows "0 \<le> sint (ip pv)" and "unat (ip pv) < length (mem pv)"
    and "instr = sint (mem pv ! unat (ip pv))" and "dfn = getdef (instr smod 100)"
    and "pv1 = pv\<lparr>ip := ip pv + 1\<rparr>"
    and "pc dfn > 0 \<Longrightarrow> unat (ip pv + 1 + of_nat (pc dfn)) < length (mem pv)"
  using assms by (auto simp: fetch_def Let_def split: if_splits)

lemma getdef_add_mul:
  "opv = ADD \<or> opv = MUL \<Longrightarrow> ic (getdef opv) = 2 \<and> oc (getdef opv) = 1 \<and> pc (getdef opv) = 3"
  by (auto simp: getdef_def lang_def langsize_def opcodes)

lemma rdpars_2E:
  assumes "rdpars al 2 pv modes = Inr (ps, modes', pv')"
  obtains q1 pva q2 where "rdpar al pv modes = Inr (q1, pva)"
    "rdpar al pva (modes sdiv 10) = Inr (q2, pv')" "ps = [q1, q2]"
    "modes' = modes sdiv 10 sdiv 10"
  using assms by (auto simp: numeral_2_eq_2 split: sum.splits prod.splits)

lemma wrpars_1E:
  assumes "wrpars al (Suc 0) pv modes = Inr (qs, pv')"
  obtains t where "wrpar al pv modes = Inr (t, pv')" "qs = [t]"
  using assms by (auto simp: wrpars_def split: sum.splits prod.splits)

lemma step_add_mul:
  assumes st: "step al (pv, f, w) = Inr x"
    and opv: "sint (mem pv ! unat (ip pv)) smod 100 = opv" "opv = ADD \<or> opv = MUL"
    and m1: "(sint (mem pv ! unat (ip pv)) sdiv 100) smod 10 = m1"
            "m1 = POS \<or> m1 = IMM \<or> m1 = REL"
    and m2: "(sint (mem pv ! unat (ip pv)) sdiv 100 sdiv 10) smod 10 = m2"
            "m2 = POS \<or> m2 = IMM \<or> m2 = REL"
    and m3: "(sint (mem pv ! unat (ip pv)) sdiv 100 sdiv 10 sdiv 10) smod 10 = m3"
            "m3 = POS \<or> m3 = REL"
  shows "\<exists>k. x = (False,
                pv\<lparr>mem := (mem pv @ replicate k 0)
                        [unat (spec_target pv m3 (mem pv ! (unat (ip pv) + 3))) :=
                           (if opv = ADD
                            then spec_operand pv m1 (mem pv ! (unat (ip pv) + 1)) +
                                 spec_operand pv m2 (mem pv ! (unat (ip pv) + 2))
                            else spec_operand pv m1 (mem pv ! (unat (ip pv) + 1)) *
                                 spec_operand pv m2 (mem pv ! (unat (ip pv) + 2)))],
                   ip := ip pv + 4\<rparr>, f, w)
            \<and> 0 \<le> sint (spec_target pv m3 (mem pv ! (unat (ip pv) + 3)))
            \<and> unat (spec_target pv m3 (mem pv ! (unat (ip pv) + 3))) < length (mem pv) + k"
proof -
  let ?i = "unat (ip pv)"
  from st obtain instr dfn pv1 ps modes pv2 qs pv3 where
    fe: "fetch pv = Inr (instr, dfn, pv1)"
    and rd: "rdpars al (ic dfn) pv1 (instr sdiv 100) = Inr (ps, modes, pv2)"
    and wr: "wrpars al (oc dfn) pv2 modes = Inr (qs, pv3)"
    and x: "x = exec (instr smod 100) (ps @ qs) (pv3, f, w)"
    by (rule stepE)
  note fd = fetch_InrD [OF fe]
  have instr: "instr smod 100 = opv" using fd(3) opv(1) by simp
  from getdef_add_mul [OF opv(2)] fd(4) instr
  have d: "ic dfn = 2" "oc dfn = 1" "pc dfn = 3" by simp_all
  have small: "unat (ip pv) < 2 ^ 63"
    using fd(1) by (rule sint_nonneg_unat(1))
  note ua = unat_add_small [OF small]
  have "unat (ip pv + 1 + of_nat (pc dfn)) < length (mem pv)"
    using fd(6) d(3) by simp
  then have len: "?i + 4 < length (mem pv)"
    using ua(4) d(3) by (simp add: add.assoc)
  from rd d(1) obtain q1 pva q2 where
    r1: "rdpar al pv1 (instr sdiv 100) = Inr (q1, pva)"
    and r2: "rdpar al pva (instr sdiv 100 sdiv 10) = Inr (q2, pv2)"
    and ps: "ps = [q1, q2]" and modes: "modes = instr sdiv 100 sdiv 10 sdiv 10"
    by (auto elim: rdpars_2E)
  from wr d(2) obtain t where
    w1: "wrpar al pv2 modes = Inr (t, pv3)" and qs: "qs = [t]"
    by (auto elim: wrpars_1E)
  have i1: "unat (ip pv1) = ?i + 1" "base pv1 = base pv" "mem pv1 = mem pv"
    "halted pv1 = halted pv"
    using fd(5) ua(1) by simp_all
  from rdpar_spec [OF r1 _ m1(2)] m1(1) fd(3) i1
  have a: "q1 = spec_operand pv1 m1 (mem pv ! (?i + 1))" "ip pva = ip pv + 2"
    "base pva = base pv" "halted pva = halted pv"
    and "\<exists>k. mem pva = mem pv @ replicate k 0"
    using fd(5) by (simp_all add: add.assoc)
  then obtain k1 where k1: "mem pva = mem pv @ replicate k1 0" by blast
  have q1: "q1 = spec_operand pv m1 (mem pv ! (?i + 1))"
    using a(1) i1 by (simp add: spec_operand_def Let_def)
  have cell2: "mem pva ! unat (ip pva) = mem pv ! (?i + 2)"
    using a(2) ua(2) k1 len by (simp add: nth_append)
  from rdpar_spec [OF r2 _ m2(2)] m2(1) fd(3) cell2 a
  have b: "q2 = spec_operand pva m2 (mem pv ! (?i + 2))" "ip pv2 = ip pv + 3"
    "base pv2 = base pv" "halted pv2 = halted pv"
    and "\<exists>k. mem pv2 = mem pva @ replicate k 0"
    by (simp_all add: add.assoc)
  then obtain k2 where k2: "mem pv2 = mem pv @ replicate (k1 + k2) 0"
    using k1 by (auto simp: replicate_add)
  have q2: "q2 = spec_operand pv m2 (mem pv ! (?i + 2))"
    using b(1) spec_operand_grown [OF k1 a(3)] by simp
  have cell3: "mem pv2 ! unat (ip pv2) = mem pv ! (?i + 3)"
    using b(2) ua(3) k2 len by (simp add: nth_append)
  have "modes smod 10 = m3"
    using m3(1) fd(3) modes by simp
  from wrpar_spec [OF w1 this m3(2)]
  have c0: "t = spec_target pv2 m3 (mem pv2 ! unat (ip pv2))" "ip pv3 = ip pv2 + 1"
    "base pv3 = base pv2" "halted pv3 = halted pv2" "0 \<le> sint t" "unat t < length (mem pv3)"
    "\<exists>k. mem pv3 = mem pv2 @ replicate k 0"
    by blast+
  have c: "t = spec_target pv2 m3 (mem pv ! (?i + 3))" "ip pv3 = ip pv + 4"
    "base pv3 = base pv" "halted pv3 = halted pv" "0 \<le> sint t" "unat t < length (mem pv3)"
    and "\<exists>k. mem pv3 = mem pv2 @ replicate k 0"
    using c0 cell3 b(2,3,4) by (simp_all add: add.assoc)
  then obtain k3 where k3: "mem pv3 = mem pv @ replicate (k1 + k2 + k3) 0"
    using k2 by (auto simp: replicate_add)
  have t: "t = spec_target pv m3 (mem pv ! (?i + 3))"
    using c(1) b(3) by (simp add: spec_target_def)
  have pv3: "pv3 = pv\<lparr>mem := mem pv @ replicate (k1 + k2 + k3) 0, ip := ip pv + 4\<rparr>"
    using c(2,3,4) k3 by (cases pv; cases pv3) simp
  have "x = (False, pv3\<lparr>mem := (mem pv3)[unat t := (if opv = ADD then q1 + q2 else q1 * q2)]\<rparr>,
             f, w)"
    using x instr opv(2) ps qs by (auto simp: exec_def opcodes)
  with pv3 q1 q2 t c(5,6) k3 show ?thesis
    by (intro exI [of _ "k1 + k2 + k3"]) simp
qed



lemma amp_rd_Inr:
  "amp_rd m i = Inr v \<Longrightarrow> 0 \<le> sint i \<and> unat i < length m \<and> v = m ! unat i"
  by (auto simp: amp_rd_def sint_nonneg_unat(3) split: if_splits)

lemma amp_wr_Inr:
  "amp_wr m i v = Inr m' \<Longrightarrow> 0 \<le> sint i \<and> unat i < length m \<and> m' = m[unat i := v]"
  by (auto simp: amp_wr_def sint_nonneg_unat(3) split: if_splits)

lemma amp_rdpar_spec:
  assumes "amp_rdpar pvm modes = Inr (q, pvm')"
    and "modes smod 10 = m" and "m = POS \<or> m = IMM \<or> m = REL"
  shows "q = spec_operand pvm m (mem pvm ! unat (ip pvm))"
    and "pvm' = pvm\<lparr>ip := ip pvm + 1\<rparr>"
    and "0 \<le> sint (ip pvm)" and "unat (ip pvm) < length (mem pvm)"
  using assms
  by (auto simp: amp_rdpar_def Let_def bindE_Inr spec_operand_def POS_def IMM_def REL_def
      dest!: amp_rd_Inr split: if_splits)

lemma amp_wrpar_spec:
  assumes "amp_wrpar pvm modes = Inr (t, pvm')"
    and "modes smod 10 = m" and "m = POS \<or> m = REL"
  shows "t = spec_target pvm m (mem pvm ! unat (ip pvm))"
    and "pvm' = pvm\<lparr>ip := ip pvm + 1\<rparr>"
    and "0 \<le> sint (ip pvm)" and "unat (ip pvm) < length (mem pvm)"
  using assms
  by (auto simp: amp_wrpar_def Let_def bindE_Inr spec_target_def POS_def REL_def
      dest!: amp_rd_Inr split: if_splits)

lemma amp_def_add_mul:
  "opv = ADD \<or> opv = MUL \<Longrightarrow> ic (amp_def opv) = 2 \<and> oc (amp_def opv) = 1"
  by (auto simp: amp_def_def lang_def langsize_def opcodes)

lemma amp_step_add_mul:
  assumes st: "amp_step iv (pvm, e, w) = Inr x"
    and opv: "sint (mem pvm ! unat (ip pvm)) smod 100 = opv" "opv = ADD \<or> opv = MUL"
    and m1: "(sint (mem pvm ! unat (ip pvm)) sdiv 100) smod 10 = m1"
            "m1 = POS \<or> m1 = IMM \<or> m1 = REL"
    and m2: "(sint (mem pvm ! unat (ip pvm)) sdiv 100 sdiv 10) smod 10 = m2"
            "m2 = POS \<or> m2 = IMM \<or> m2 = REL"
    and m3: "(sint (mem pvm ! unat (ip pvm)) sdiv 100 sdiv 10 sdiv 10) smod 10 = m3"
            "m3 = POS \<or> m3 = REL"
  shows "x = (None,
              pvm\<lparr>mem := (mem pvm)
                      [unat (spec_target pvm m3 (mem pvm ! (unat (ip pvm) + 3))) :=
                         (if opv = ADD
                          then spec_operand pvm m1 (mem pvm ! (unat (ip pvm) + 1)) +
                               spec_operand pvm m2 (mem pvm ! (unat (ip pvm) + 2))
                          else spec_operand pvm m1 (mem pvm ! (unat (ip pvm) + 1)) *
                               spec_operand pvm m2 (mem pvm ! (unat (ip pvm) + 2)))],
                  ip := ip pvm + 4\<rparr>, e, w)
         \<and> 0 \<le> sint (spec_target pvm m3 (mem pvm ! (unat (ip pvm) + 3)))
         \<and> unat (spec_target pvm m3 (mem pvm ! (unat (ip pvm) + 3))) < length (mem pvm)"
proof -
  let ?i = "unat (ip pvm)"
  let ?instr = "sint (mem pvm ! ?i)"
  let ?pvm1 = "pvm\<lparr>ip := ip pvm + 1\<rparr>"
  from st obtain cell where cell: "amp_rd (mem pvm) (ip pvm) = Inr cell"
    by (auto simp: amp_step_def bindE_Inr)
  note c = amp_rd_Inr [OF cell]
  have instr: "sint cell = ?instr" using c by simp
  note d = amp_def_add_mul [OF opv(2)]
  from st cell instr opv(1) d obtain ps modes pvm2 qs pvm3 where
    rd: "amp_rdpars 2 ?pvm1 (?instr sdiv 100) = Inr (ps, modes, pvm2)"
    and wr: "amp_wrpars 1 pvm2 modes = Inr (qs, pvm3)"
    and x: "amp_exec opv (ps @ qs) iv (pvm3, e, w) = Inr x"
    by (auto simp: amp_step_def bindE_Inr Let_def)
  from c have "0 \<le> sint (ip pvm)" by simp
  then have small: "unat (ip pvm) < 2 ^ 63"
    by (rule sint_nonneg_unat(1))
  note ua = unat_add_small [OF small]
  from rd obtain q1 pva q2 where
    r1: "amp_rdpar ?pvm1 (?instr sdiv 100) = Inr (q1, pva)"
    and r2: "amp_rdpar pva (?instr sdiv 100 sdiv 10) = Inr (q2, pvm2)"
    and ps: "ps = [q1, q2]" and modes: "modes = ?instr sdiv 100 sdiv 10 sdiv 10"
    by (auto simp: numeral_2_eq_2 bindE_Inr)
  from wr obtain t where
    w1: "amp_wrpar pvm2 modes = Inr (t, pvm3)" and qs: "qs = [t]"
    by (auto simp: amp_wrpars_def bindE_Inr)
  note a = amp_rdpar_spec [OF r1 m1]
  have q1: "q1 = spec_operand pvm m1 (mem pvm ! (?i + 1))"
    using a(1) ua(1) by (simp add: spec_operand_def Let_def)
  have pva: "pva = pvm\<lparr>ip := ip pvm + 2\<rparr>"
    using a(2) by (simp add: add.assoc)
  note b = amp_rdpar_spec [OF r2 m2]
  have q2: "q2 = spec_operand pvm m2 (mem pvm ! (?i + 2))"
    using b(1) pva ua(2) by (simp add: spec_operand_def Let_def)
  have pvm2: "pvm2 = pvm\<lparr>ip := ip pvm + 3\<rparr>"
    using b(2) pva by (simp add: add.assoc)
  have "modes smod 10 = m3" using m3(1) modes by simp
  note cw = amp_wrpar_spec [OF w1 this m3(2)]
  have t: "t = spec_target pvm m3 (mem pvm ! (?i + 3))"
    using cw(1) pvm2 ua(3) by (simp add: spec_target_def)
  have pvm3: "pvm3 = pvm\<lparr>ip := ip pvm + 4\<rparr>"
    using cw(2) pvm2 by (simp add: add.assoc)
  from x ps qs opv(2) obtain m' where
    m': "amp_wr (mem pvm3) t (if opv = ADD then q1 + q2 else q1 * q2) = Inr m'"
    and x': "x = (None, pvm3\<lparr>mem := m'\<rparr>, e, w)"
    by (auto simp: amp_exec_def bindE_Inr opcodes)
  from amp_wr_Inr [OF m'] pvm3
  have "0 \<le> sint t" "unat t < length (mem pvm)"
    "m' = (mem pvm)[unat t := (if opv = ADD then q1 + q2 else q1 * q2)]"
    by simp_all
  with x' pvm3 q1 q2 t show ?thesis
    by (cases pvm) simp
qed


section \<open>Add and multiply\<close>


text \<open>
  C2: a turn of the loop on an add or multiply instruction that does not end in a fatal
  error writes exactly the sum or the product (64-bit, wrapping) of its two operands, as
  their modes resolve them in the memory before the turn, to the address of the write
  parameter, whatever the modes of the two operands are. Nothing else changes but the
  instruction pointer, which moves past the four cells, and the zero cells by which the
  memory grew. In the amplifier program the same holds, without growth, for a turn that
  stays inside the memory.
\<close>

theorem add_mul_write_exact:
  assumes "opv = ADD \<or> opv = MUL"
    and "m1 = POS \<or> m1 = IMM \<or> m1 = REL"
    and "m2 = POS \<or> m2 = IMM \<or> m2 = REL"
    and "m3 = POS \<or> m3 = REL"
  shows "(spec_decode pv opv m1 m2 m3 \<and> step al (pv, f, w) = Inr x \<longrightarrow>
           (\<exists>k. x = (False,
                pv\<lparr>mem := (mem pv @ replicate k 0)
                        [unat (spec_target pv m3 (mem pv ! (unat (ip pv) + 3))) :=
                           (if opv = ADD
                            then spec_operand pv m1 (mem pv ! (unat (ip pv) + 1)) +
                                 spec_operand pv m2 (mem pv ! (unat (ip pv) + 2))
                            else spec_operand pv m1 (mem pv ! (unat (ip pv) + 1)) *
                                 spec_operand pv m2 (mem pv ! (unat (ip pv) + 2)))],
                   ip := ip pv + 4\<rparr>, f, w)
            \<and> 0 \<le> sint (spec_target pv m3 (mem pv ! (unat (ip pv) + 3)))
            \<and> unat (spec_target pv m3 (mem pv ! (unat (ip pv) + 3))) < length (mem pv) + k))
       \<and> (spec_decode pvm opv m1 m2 m3 \<and> amp_step iv (pvm, e, w') = Inr y \<longrightarrow>
           y = (None,
              pvm\<lparr>mem := (mem pvm)
                      [unat (spec_target pvm m3 (mem pvm ! (unat (ip pvm) + 3))) :=
                         (if opv = ADD
                          then spec_operand pvm m1 (mem pvm ! (unat (ip pvm) + 1)) +
                               spec_operand pvm m2 (mem pvm ! (unat (ip pvm) + 2))
                          else spec_operand pvm m1 (mem pvm ! (unat (ip pvm) + 1)) *
                               spec_operand pvm m2 (mem pvm ! (unat (ip pvm) + 2)))],
                  ip := ip pvm + 4\<rparr>, e, w')
           \<and> 0 \<le> sint (spec_target pvm m3 (mem pvm ! (unat (ip pvm) + 3)))
           \<and> unat (spec_target pvm m3 (mem pvm ! (unat (ip pvm) + 3))) < length (mem pvm))"
proof (rule conjI; rule impI)
  assume h: "spec_decode pv opv m1 m2 m3 \<and> step al (pv, f, w) = Inr x"
  then have d: "sint (mem pv ! unat (ip pv)) smod 100 = opv"
    "(sint (mem pv ! unat (ip pv)) sdiv 100) smod 10 = m1"
    "(sint (mem pv ! unat (ip pv)) sdiv 100 sdiv 10) smod 10 = m2"
    "(sint (mem pv ! unat (ip pv)) sdiv 100 sdiv 10 sdiv 10) smod 10 = m3"
    by (simp_all add: spec_decode_def Let_def)
  from h have "step al (pv, f, w) = Inr x" ..
  from step_add_mul [OF this d(1) assms(1) d(2) assms(2) d(3) assms(3) d(4) assms(4)]
  show "\<exists>k. x = (False,
                pv\<lparr>mem := (mem pv @ replicate k 0)
                        [unat (spec_target pv m3 (mem pv ! (unat (ip pv) + 3))) :=
                           (if opv = ADD
                            then spec_operand pv m1 (mem pv ! (unat (ip pv) + 1)) +
                                 spec_operand pv m2 (mem pv ! (unat (ip pv) + 2))
                            else spec_operand pv m1 (mem pv ! (unat (ip pv) + 1)) *
                                 spec_operand pv m2 (mem pv ! (unat (ip pv) + 2)))],
                   ip := ip pv + 4\<rparr>, f, w)
            \<and> 0 \<le> sint (spec_target pv m3 (mem pv ! (unat (ip pv) + 3)))
            \<and> unat (spec_target pv m3 (mem pv ! (unat (ip pv) + 3))) < length (mem pv) + k" .
next
  assume h: "spec_decode pvm opv m1 m2 m3 \<and> amp_step iv (pvm, e, w') = Inr y"
  then have d: "sint (mem pvm ! unat (ip pvm)) smod 100 = opv"
    "(sint (mem pvm ! unat (ip pvm)) sdiv 100) smod 10 = m1"
    "(sint (mem pvm ! unat (ip pvm)) sdiv 100 sdiv 10) smod 10 = m2"
    "(sint (mem pvm ! unat (ip pvm)) sdiv 100 sdiv 10 sdiv 10) smod 10 = m3"
    by (simp_all add: spec_decode_def Let_def)
  from h have "amp_step iv (pvm, e, w') = Inr y" ..
  from amp_step_add_mul [OF this d(1) assms(1) d(2) assms(2) d(3) assms(3) d(4) assms(4)]
  show "y = (None,
              pvm\<lparr>mem := (mem pvm)
                      [unat (spec_target pvm m3 (mem pvm ! (unat (ip pvm) + 3))) :=
                         (if opv = ADD
                          then spec_operand pvm m1 (mem pvm ! (unat (ip pvm) + 1)) +
                               spec_operand pvm m2 (mem pvm ! (unat (ip pvm) + 2))
                          else spec_operand pvm m1 (mem pvm ! (unat (ip pvm) + 1)) *
                               spec_operand pvm m2 (mem pvm ! (unat (ip pvm) + 2)))],
                  ip := ip pvm + 4\<rparr>, e, w')
           \<and> 0 \<le> sint (spec_target pvm m3 (mem pvm ! (unat (ip pvm) + 3)))
           \<and> unat (spec_target pvm m3 (mem pvm ! (unat (ip pvm) + 3))) < length (mem pvm)" .
qed

theorem add_mul_write_exact_witness:
  "spec_decode \<lparr>mem = [1202, 2, 6, 9, 99], ip = 0, base = 2, halted = False\<rparr> MUL REL IMM POS
   \<and> step (\<lambda>n. True) (\<lparr>mem = [1202, 2, 6, 9, 99], ip = 0, base = 2, halted = False\<rparr>,
        fifo_init, \<lparr>stdin = [], tty = False, stdout = []\<rparr>)
       = Inr (False, \<lparr>mem = [1202, 2, 6, 9, 99, 0, 0, 0, 0, 594], ip = 4, base = 2,
                       halted = False\<rparr>, fifo_init, \<lparr>stdin = [], tty = False, stdout = []\<rparr>)
   \<and> spec_operand \<lparr>mem = [1202, 2, 6, 9, 99], ip = 0, base = 2, halted = False\<rparr> REL 2 = 99
   \<and> spec_operand \<lparr>mem = [1202, 2, 6, 9, 99], ip = 0, base = 2, halted = False\<rparr> IMM 6 = 6
   \<and> spec_target \<lparr>mem = [1202, 2, 6, 9, 99], ip = 0, base = 2, halted = False\<rparr> POS 9 = 9
   \<and> spec_decode \<lparr>mem = [1002, 4, 6, 0, 99], ip = 0, base = 0, halted = False,
                    phase = 1, phased = True\<rparr> MUL POS IMM POS
   \<and> amp_step 7 (\<lparr>mem = [1002, 4, 6, 0, 99], ip = 0, base = 0, halted = False,
                    phase = 1, phased = True\<rparr>, False, \<lparr>stdin = [], tty = False, stdout = []\<rparr>)
       = Inr (None, \<lparr>mem = [594, 4, 6, 0, 99], ip = 4, base = 0, halted = False,
                      phase = 1, phased = True\<rparr>, False, \<lparr>stdin = [], tty = False, stdout = []\<rparr>)"
proof -
  let ?w = "\<lparr>stdin = [], tty = False, stdout = []\<rparr>"
  let ?pv = "\<lparr>mem = [1202, 2, 6, 9, 99], ip = 0, base = 2, halted = False\<rparr>"
  let ?pv' = "\<lparr>mem = [1202, 2, 6, 9, 99, 0, 0, 0, 0, 594], ip = 4, base = 2, halted = False\<rparr>"
  let ?pvm = "\<lparr>mem = [1002, 4, 6, 0, 99], ip = 0, base = 0, halted = False,
                phase = 1, phased = True\<rparr>"
  let ?pvm' = "\<lparr>mem = [594, 4, 6, 0, 99], ip = 4, base = 0, halted = False,
                phase = 1, phased = True\<rparr>"
  have d: "spec_decode ?pv MUL REL IMM POS" "spec_decode ?pvm MUL POS IMM POS"
    by (simp_all add: spec_decode_def opcodes POS_def IMM_def REL_def
        signed_modulo_int_def signed_divide_int_def)
  have s: "step (\<lambda>n. True) (?pv, fifo_init, ?w) = Inr (False, ?pv', fifo_init, ?w)"
    by (simp add: eval_vm)
  have a: "amp_step 7 (?pvm, False, ?w) = Inr (None, ?pvm', False, ?w)"
    by (simp add: eval_amp)
  have o: "spec_operand ?pv REL 2 = 99" "spec_operand ?pv IMM 6 = 6" "spec_target ?pv POS 9 = 9"
    by (simp_all add: spec_operand_def spec_target_def POS_def IMM_def REL_def)
  have "MUL = ADD \<or> MUL = MUL" "REL = POS \<or> REL = IMM \<or> REL = REL"
    "IMM = POS \<or> IMM = IMM \<or> IMM = REL" "POS = POS \<or> POS = REL"
    by simp_all
  note t1 = add_mul_write_exact [OF this, where pv = ?pv and al = "\<lambda>n. True" and f = fifo_init
      and w = ?w and x = "(False, ?pv', fifo_init, ?w)"]
  have "MUL = ADD \<or> MUL = MUL" "POS = POS \<or> POS = IMM \<or> POS = REL"
    "IMM = POS \<or> IMM = IMM \<or> IMM = REL" "POS = POS \<or> POS = REL"
    by simp_all
  note t2 = add_mul_write_exact [OF this, where pvm = ?pvm and iv = 7 and e = False
      and w' = ?w and y = "(None, ?pvm', False, ?w)"]
  from t1 t2 d s a o show ?thesis by simp
qed


section \<open>The search over the permutations\<close>



lemma sint_keep_max: "sint (keep_max amax a) = max (sint amax) (sint a)"
  by (simp add: keep_max_def max_def)

lemma sint_foldl_keep_max:
  "sint (foldl keep_max amax as) = Max (insert (sint amax) (sint ` set as))"
proof (induction as arbitrary: amax)
  case Nil
  then show ?case by simp
next
  case (Cons a as)
  have "Max (insert (max (sint amax) (sint a)) (sint ` set as))
      = Max (insert (sint amax) (insert (sint a) (sint ` set as)))"
    by (cases "set as = {}") (simp_all add: max.assoc)
  with Cons show ?case by (simp add: sint_keep_max)
qed

lemma foldl_keep_max_reported: "foldl keep_max (- 1) as = reported as"
proof -
  have "sint (foldl keep_max (- 1 :: int64) as) = Max (insert (- 1) (sint ` set as))"
    by (simp add: sint_foldl_keep_max)
  then have "word_of_int (sint (foldl keep_max (- 1 :: int64) as)) = reported as"
    by (simp only: reported_def)
  then show ?thesis by simp
qed

lemma perm_loop_perm_seq:
  "perm_seq n a = Some ps \<Longrightarrow>
     perm_loop tr (a, amax, s) =
       (case trials tr ps s of
          None \<Rightarrow> None
        | Some (Inl e) \<Rightarrow> Some (Inl e)
        | Some (Inr (as, s')) \<Rightarrow> Some (Inr (foldl keep_max amax as, s')))"
proof (induction n arbitrary: a ps amax s)
  case 0
  then show ?case by simp
next
  case (Suc n)
  obtain again a' where np: "next_perm a = (again, a')" by (cases "next_perm a")
  show ?case
  proof (cases again)
    case False
    with Suc.prems np have ps: "ps = [a]" by simp
    show ?thesis
      unfolding ps
      by (subst perm_loop.simps)
        (simp add: np False keep_max_def Let_def split: option.splits sum.splits prod.splits)
  next
    case True
    with Suc.prems np obtain ps' where ps': "perm_seq n a' = Some ps'" and ps: "ps = a # ps'"
      by auto
    note IH = Suc.IH [OF ps']
    show ?thesis
      unfolding ps
      by (subst perm_loop.simps)
        (simp add: np True IH keep_max_def Let_def split: option.splits sum.splits prod.splits)
  qed
qed

lemma perm_seq_next:
  "perm_seq n a = Some ps \<Longrightarrow>
     ps \<noteq> [] \<and> hd ps = a \<and> \<not> fst (next_perm (last ps)) \<and>
     (\<forall>i. Suc i < length ps \<longrightarrow> next_perm (ps ! i) = (True, ps ! Suc i))"
proof (induction n arbitrary: a ps)
  case 0
  then show ?case by simp
next
  case (Suc n)
  obtain again a' where np: "next_perm a = (again, a')" by (cases "next_perm a")
  show ?case
  proof (cases again)
    case False
    with Suc.prems np show ?thesis by auto
  next
    case True
    with Suc.prems np obtain ps' where ps': "perm_seq n a' = Some ps'" and ps: "ps = a # ps'"
      by auto
    from Suc.IH [OF ps'] have IH: "ps' \<noteq> []" "hd ps' = a'" "\<not> fst (next_perm (last ps'))"
      "\<And>i. Suc i < length ps' \<Longrightarrow> next_perm (ps' ! i) = (True, ps' ! Suc i)"
      by blast+
    have "next_perm (ps ! i) = (True, ps ! Suc i)" if "Suc i < length ps" for i
    proof (cases i)
      case 0
      then show ?thesis using ps np True IH(1,2) by (simp add: hd_conv_nth)
    next
      case (Suc j)
      then show ?thesis using ps that IH(4) [of j] by simp
    qed
    with IH ps show ?thesis by simp
  qed
qed




lemma perm_seq_numeral:
  "perm_seq (numeral k) a =
     (case next_perm a of
        (again, a') \<Rightarrow>
          if again then map_option (\<lambda>ps. a # ps) (perm_seq (pred_numeral k) a') else Some [a])"
  by (simp add: numeral_eq_Suc)

lemma perm_seq_1:
  "perm_seq (Suc 0) a =
     (case next_perm a of (again, a') \<Rightarrow> if again then None else Some [a])"
  by (simp split: prod.splits)

lemma next_perm_k_numeral:
  "next_perm_k a (numeral k) =
     (if a ! pred_numeral k \<ge> a ! numeral k then next_perm_k a (pred_numeral k) else numeral k)"
  by (simp add: numeral_eq_Suc)

lemma next_perm_l_numeral:
  "next_perm_l a k (numeral l) =
     (if a ! numeral l \<le> a ! k then next_perm_l a k (pred_numeral l) else numeral l)"
  by (simp add: numeral_eq_Suc)

lemmas eval_perm = perm_seq_numeral perm_seq_1 next_perm_k_numeral next_perm_l_numeral
  next_perm_def swap_def Let_def

lemma init_phase_eq:
  "init_phase part = [5 * (part - 1), 5 * (part - 1) + 1, 5 * (part - 1) + 2,
                      5 * (part - 1) + 3, 5 * (part - 1) + 4]"
  by (simp add: init_phase_def STAGES_def upt_rec)

lemma perm_seq_shifted:
  "perm_seq 120 [c, c + 1, c + 2, c + 3, c + 4] = Some (shifted c)"
  by (simp add: eval_perm arrangements5_def shifted_def)

lemma length_shifted: "length (shifted c) = 120"
  by (simp add: shifted_def arrangements5_def)

lemma transp_lex_less: "transp lex_less"
proof -
  have "trans {(x :: int, y). x < y}" by (auto simp: trans_def)
  then have "trans (lexord {(x :: int, y). x < y})" by (rule lexord_transI)
  then show ?thesis
    unfolding transp_def trans_def lex_less_def by blast
qed

lemma lex_less_irrefl: "\<not> lex_less xs xs"
  unfolding lex_less_def by (rule lexord_irreflexive) simp

lemma successively_shifted: "successively lex_less (shifted c)"
  by (simp add: shifted_def arrangements5_def lex_less_def)

lemma sorted_shifted: "sorted_wrt lex_less (shifted c)"
  using successively_shifted transp_lex_less
  by (simp add: successively_conv_sorted_wrt)

lemma distinct_shifted: "distinct (shifted c)"
proof -
  have "sorted_wrt (\<noteq>) (shifted c)"
    by (rule sorted_wrt_mono_rel [OF _ sorted_shifted]) (auto simp: lex_less_irrefl)
  then show ?thesis by (simp add: distinct_conv_nth sorted_wrt_iff_nth_less)
      (metis nat_neq_iff)
qed

lemma sort_arrangements5: "\<forall>p \<in> set arrangements5. sort p = [0, 1, 2, 3, 4]"
  by (simp add: arrangements5_def)



lemma shifted_members:
  assumes "p \<in> set (shifted c)"
  shows "distinct p \<and> set p = {c, c + 1, c + 2, c + 3, c + 4}"
proof -
  from assms obtain q where q: "q \<in> set arrangements5" and p: "p = map (\<lambda>i. c + i) q"
    by (auto simp: shifted_def)
  from q sort_arrangements5 have s: "sort q = [0, 1, 2, 3, 4]" by blast
  have "set q = set (sort q)" by simp
  then have sq: "set q = {0, 1, 2, 3, 4}" unfolding s by simp
  have "distinct q = distinct (sort q)" by simp
  then have dq: "distinct q" unfolding s by simp
  have "inj_on (\<lambda>i. c + i) (set q)" by (simp add: inj_on_def)
  with dq have "distinct p" unfolding p by (simp add: distinct_map)
  moreover have "set p = {c, c + 1, c + 2, c + 3, c + 4}"
    unfolding p using sq by simp
  ultimately show ?thesis ..
qed

lemma card_arrangements:
  fixes A :: "int set"
  assumes "finite A" and "card A = 5"
  shows "finite {p. distinct p \<and> set p = A}" and "card {p. distinct p \<and> set p = A} = 120"
proof -
  have l: "length xs = 5" if "distinct xs" "set xs = A" for xs :: "int list"
    using that assms(2) distinct_card [of xs] by simp
  have r: "set xs = A" if "length xs = 5" "distinct xs" "set xs \<subseteq> A" for xs :: "int list"
  proof -
    have "card (set xs) = card A" using that assms(2) distinct_card [of xs] by simp
    with that(3) assms(1) show ?thesis by (simp add: card_subset_eq)
  qed
  have eq: "{p. distinct p \<and> set p = A} = {xs. length xs = 5 \<and> distinct xs \<and> set xs \<subseteq> A}"
    using l r by auto
  show "finite {p. distinct p \<and> set p = A}"
    by (rule finite_subset [OF _ finite_subset_distinct [OF assms(1)]]) auto
  have "card {xs. length xs = 5 \<and> distinct xs \<and> set xs \<subseteq> A} = \<Prod>{card A - 5 + 1 .. card A}"
    using assms by (intro card_lists_distinct_length_eq) simp_all
  also have "\<dots> = fact 5" unfolding assms(2) by (simp add: fact_prod)
  also have "\<dots> = (120 :: nat)" by (simp add: fact_numeral)
  finally show "card {p. distinct p \<and> set p = A} = 120" unfolding eq .
qed

lemma set_shifted:
  "set (shifted c) = {p. distinct p \<and> set p = {c, c + 1, c + 2, c + 3, c + 4}}"
proof -
  let ?A = "{c, c + 1, c + 2, c + 3, c + 4}"
  have A: "finite ?A" "card ?A = 5" by simp_all
  have sub: "set (shifted c) \<subseteq> {p. distinct p \<and> set p = ?A}"
    using shifted_members by blast
  have "card (set (shifted c)) = 120"
    using distinct_shifted [of c] length_shifted [of c] by (simp add: distinct_card)
  then have "card (set (shifted c)) = card {p. distinct p \<and> set p = ?A}"
    using card_arrangements(2) [OF A] by simp
  with card_arrangements(1) [OF A] sub show ?thesis
    by (rule card_subset_eq)
qed

lemma maxamp_trials:
  "perm_loop tr (init_phase part, - 1, s) =
     (case trials tr (shifted (5 * (part - 1))) s of
        None \<Rightarrow> None
      | Some (Inl e) \<Rightarrow> Some (Inl e)
      | Some (Inr (as, s')) \<Rightarrow> Some (Inr (reported as, s')))"
  using perm_loop_perm_seq [OF perm_seq_shifted, of tr "5 * (part - 1)" "- 1" s]
  by (simp add: init_phase_eq foldl_keep_max_reported algebra_simps
      split: option.splits sum.splits)

lemma hd_shifted: "hd (shifted c) = [c, c + 1, c + 2, c + 3, c + 4]"
  by (simp add: shifted_def arrangements5_def)


section \<open>The search as trials in a row\<close>

lemma trials_order_free:
  assumes "I s"
    and "\<And>p s0. I s0 \<Longrightarrow> p \<in> set qs \<Longrightarrow> \<exists>s1. tr p s0 = Some (Inr (g p, s1)) \<and> I s1"
  shows "\<exists>s1. trials tr qs s = Some (Inr (map g qs, s1)) \<and> I s1"
  using assms
proof (induction qs arbitrary: s)
  case Nil
  then show ?case by simp
next
  case (Cons q qs)
  from Cons.prems(2) [OF Cons.prems(1), of q]
  obtain s1 where 1: "tr q s = Some (Inr (g q, s1))" "I s1" by auto
  have "\<And>p s0. I s0 \<Longrightarrow> p \<in> set qs \<Longrightarrow> \<exists>s1. tr p s0 = Some (Inr (g p, s1)) \<and> I s1"
    using Cons.prems(2) by simp
  from Cons.IH [OF 1(2) this]
  obtain s2 where "trials tr qs s1 = Some (Inr (map g qs, s2))" "I s2" by blast
  then have "trials tr (q # qs) s = Some (Inr (map g (q # qs), s2)) \<and> I s2"
    using 1 by simp
  then show ?case by blast
qed


text \<open>
  C5 (as the code has it): from the five phase numbers in ascending order the search
  goes through exactly 120 = 5! permutations, all there are, in strictly increasing
  lexicographic order, each the \<^verbatim>\<open>next_perm\<close> of the one before, and \<^verbatim>\<open>next_perm\<close>
  returns 0 at the last one only. Each trial starts from the state the one before left;
  a trial that does not return, or a fatal error, ends the search. Otherwise the search
  returns the largest of the results and \<open>- 1\<close>, a value that depends on the set of the
  results only. This holds for \<^verbatim>\<open>maxamp\<close> of both programs. The results themselves
  depend on the states that the trials before left (the queue and the standard input
  are never reset). When they do not, that is when from every state of a set \<open>I\<close> that
  holds the first state the trial of a permutation \<open>p\<close> returns the same value \<open>g p\<close>
  and a state of \<open>I\<close> again, then the trials of \<^verbatim>\<open>intcode.c\<close> taken in any other order
  return the same results, and the value reported for them is the same.
\<close>

theorem maxamp_tries_all_permutations:
  "\<exists>ps. length ps = fact STAGES \<and> length ps = 120
     \<and> hd ps = init_phase part
     \<and> sorted_wrt lex_less ps
     \<and> set ps = {p. distinct p \<and> set p = set (init_phase part)}
     \<and> (\<forall>i. Suc i < length ps \<longrightarrow> next_perm (ps ! i) = (True, ps ! Suc i))
     \<and> \<not> fst (next_perm (last ps))
     \<and> maxamp al part ref s =
         (case trials (trial al part ref) ps s of
            None \<Rightarrow> None
          | Some (Inl e) \<Rightarrow> Some (Inl e)
          | Some (Inr (as, s')) \<Rightarrow> Some (Inr (reported as, s')))
     \<and> amp_maxamp al code part t =
         (case trials (amp_trial al code part) ps t of
            None \<Rightarrow> None
          | Some (Inl e) \<Rightarrow> Some (Inl e)
          | Some (Inr (as, t')) \<Rightarrow> Some (Inr (reported as, t')))
     \<and> (\<forall>as bs. set as = set bs \<longrightarrow> reported as = reported bs)
     \<and> (I s \<and> (\<forall>p s0. I s0 \<and> p \<in> set ps \<longrightarrow>
                 (\<exists>s1. trial al part ref p s0 = Some (Inr (g p, s1)) \<and> I s1)) \<longrightarrow>
          (\<forall>qs. set qs = set ps \<longrightarrow>
             (\<exists>s1. trials (trial al part ref) qs s = Some (Inr (map g qs, s1)) \<and> I s1)
             \<and> reported (map g qs) = reported (map g ps)))"
proof -
  let ?c = "5 * (part - 1)"
  let ?ps = "shifted ?c"
  have ip: "init_phase part = [?c, ?c + 1, ?c + 2, ?c + 3, ?c + 4]"
    by (rule init_phase_eq)
  have seq: "perm_seq 120 (init_phase part) = Some ?ps"
    unfolding ip by (rule perm_seq_shifted)
  note nx = perm_seq_next [OF seq]
  have "length ?ps = fact STAGES"
    by (simp add: length_shifted STAGES_def fact_numeral)
  moreover have "length ?ps = 120" by (rule length_shifted)
  moreover have "hd ?ps = init_phase part" using nx by blast
  moreover have "sorted_wrt lex_less ?ps" by (rule sorted_shifted)
  moreover have "set ?ps = {p. distinct p \<and> set p = set (init_phase part)}"
    unfolding ip by (simp add: set_shifted)
  moreover have "\<forall>i. Suc i < length ?ps \<longrightarrow> next_perm (?ps ! i) = (True, ?ps ! Suc i)"
    using nx by blast
  moreover have "\<not> fst (next_perm (last ?ps))" using nx by blast
  moreover have "maxamp al part ref s =
         (case trials (trial al part ref) ?ps s of
            None \<Rightarrow> None
          | Some (Inl e) \<Rightarrow> Some (Inl e)
          | Some (Inr (as, s')) \<Rightarrow> Some (Inr (reported as, s')))"
    unfolding maxamp_def by (rule maxamp_trials)
  moreover have "amp_maxamp al code part t =
         (case trials (amp_trial al code part) ?ps t of
            None \<Rightarrow> None
          | Some (Inl e) \<Rightarrow> Some (Inl e)
          | Some (Inr (as, t')) \<Rightarrow> Some (Inr (reported as, t')))"
    unfolding amp_maxamp_def by (rule maxamp_trials)
  moreover have "\<forall>as bs :: int64 list. set as = set bs \<longrightarrow> reported as = reported bs"
    by (simp add: reported_def)
  moreover have "I s \<and> (\<forall>p s0. I s0 \<and> p \<in> set ?ps \<longrightarrow>
                 (\<exists>s1. trial al part ref p s0 = Some (Inr (g p, s1)) \<and> I s1)) \<longrightarrow>
          (\<forall>qs. set qs = set ?ps \<longrightarrow>
             (\<exists>s1. trials (trial al part ref) qs s = Some (Inr (map g qs, s1)) \<and> I s1)
             \<and> reported (map g qs) = reported (map g ?ps))"
  proof (intro impI allI)
    fix qs
    assume h: "I s \<and> (\<forall>p s0. I s0 \<and> p \<in> set ?ps \<longrightarrow>
                 (\<exists>s1. trial al part ref p s0 = Some (Inr (g p, s1)) \<and> I s1))"
      and q: "set qs = set ?ps"
    from h have "I s" by blast
    moreover have "\<And>p s0. I s0 \<Longrightarrow> p \<in> set qs \<Longrightarrow>
        \<exists>s1. trial al part ref p s0 = Some (Inr (g p, s1)) \<and> I s1"
      using h q by blast
    ultimately have "\<exists>s1. trials (trial al part ref) qs s = Some (Inr (map g qs, s1)) \<and> I s1"
      by (rule trials_order_free)
    moreover have "reported (map g qs) = reported (map g ?ps)"
      using q by (simp add: reported_def)
    ultimately show "(\<exists>s1. trials (trial al part ref) qs s = Some (Inr (map g qs, s1)) \<and> I s1)
             \<and> reported (map g qs) = reported (map g ?ps)"
      by (rule conjI)
  qed
  ultimately show ?thesis by blast
qed


text \<open>
  A program that reads its two inputs and puts out the constant \<open>c\<close>: every stage
  delivers \<open>c\<close>, and so does every trial.
\<close>

lemmas eval_cpu =
  step_def fetch_def getdef_def lang_def langsize_def opcodes IMM_def REL_def
  rdpar_def rdpars_numeral wrpar_def wrpars_def exec_def setsize_def Let_def
  signed_modulo_int_def signed_divide_int_def bool64_def

lemma const_stage:
  assumes "fifo_ok f" and "queued f = []"
  shows "\<exists>f' f''.
    run al (\<lparr>mem = [3, 0, 3, 0, 104, c, 99], ip = 0, base = 0, halted = False\<rparr>,
            fifopush a (fifopush ph (f, w)))
      = Some (Inr (\<lparr>mem = [a, 0, 3, 0, 104, c, 99], ip = 6, base = 0, halted = False\<rparr>, f', w))
    \<and> fifopop (f', w) = (c, f'', w) \<and> fifo_ok f'' \<and> queued f'' = []"
proof -
  have small: "length (queued f) < FIFOSIZE - 1"
    using assms(2) by (simp add: FIFOSIZE_def)
  note p1 = fifopush_queued [OF assms(1) small, of ph w]
  obtain f1 where f1: "fifopush ph (f, w) = (f1, w)" "fifo_ok f1" "queued f1 = [ph]"
    using p1 assms(2) by (metis append_Nil)
  have "length (queued f1) < FIFOSIZE - 1" using f1(3) by (simp add: FIFOSIZE_def)
  note p2 = fifopush_queued [OF f1(2) this, of a w]
  obtain f2 where f2: "fifopush a (f1, w) = (f2, w)" "fifo_ok f2" "queued f2 = [ph, a]"
    using p2 f1(3) by (metis append_Cons append_Nil)
  note p3 = fifopop_queued [OF f2(2) f2(3), of w]
  obtain f3 where f3: "fifopop (f2, w) = (ph, f3, w)" "fifo_ok f3" "queued f3 = [a]"
    using p3 by blast
  note p4 = fifopop_queued [OF f3(2) f3(3), of w]
  obtain f4 where f4: "fifopop (f3, w) = (a, f4, w)" "fifo_ok f4" "queued f4 = []"
    using p4 by blast
  have "length (queued f4) < FIFOSIZE - 1" using f4(3) by (simp add: FIFOSIZE_def)
  note p5 = fifopush_queued [OF f4(2) this, of "c" w]
  obtain f5 where f5: "fifopush c (f4, w) = (f5, w)" "fifo_ok f5" "queued f5 = [c]"
    using p5 f4(3) by (metis append_Nil)
  note p6 = fifopop_queued [OF f5(2) f5(3), of w]
  obtain f6 where f6: "fifopop (f5, w) = (c, f6, w)" "fifo_ok f6" "queued f6 = []"
    using p6 by blast
  have "run al (\<lparr>mem = [3, 0, 3, 0, 104, c, 99], ip = 0, base = 0, halted = False\<rparr>,
            fifopush a (fifopush ph (f, w)))
      = Some (Inr (\<lparr>mem = [a, 0, 3, 0, 104, c, 99], ip = 6, base = 0, halted = False\<rparr>, f5, w))"
    by (simp add: f1(1) f2(1) run.simps eval_cpu f3(1) f4(1) f5(1))
  with f6 show ?thesis by blast
qed


lemma const_copy_all:
  assumes "\<forall>v \<in> set vms. length (mem v) \<le> length (mem ref)"
    and "length (mem ref) < 2 ^ 61"
  shows "copy_all (\<lambda>n. True) vms ref
           = Inr (replicate (length vms)
                   \<lparr>mem = mem ref, ip = ip ref, base = base ref, halted = halted ref\<rparr>)"
  using assms by (induction vms) (simp_all add: copyvm_eq)

lemma const_first_round:
  assumes "\<forall>pv \<in> set pvs. snd pv =
             \<lparr>mem = [3, 0, 3, 0, 104, c, 99], ip = 0, base = 0, halted = False\<rparr>"
    and "fifo_ok f" and "queued f = []"
  shows "\<exists>vs' f'. first_round al pvs a (f, w)
                     = Some (Inr (if pvs = [] then a else c, vs', f', w))
           \<and> length vs' = length pvs \<and> (\<forall>v \<in> set vs'. length (mem v) = 7)
           \<and> fifo_ok f' \<and> queued f' = []"
  using assms
proof (induction pvs arbitrary: a f)
  case Nil
  then show ?case by simp
next
  case (Cons pv pvs)
  obtain ph v where pv: "pv = (ph, v)" by (cases pv)
  from Cons.prems(1) pv
  have v: "v = \<lparr>mem = [3, 0, 3, 0, 104, c, 99], ip = 0, base = 0, halted = False\<rparr>"
    by simp
  from const_stage [OF Cons.prems(2, 3), where al = al and a = a and ph = "word_of_int ph"
      and w = w and c = c]
  obtain f1 f2 where
    r: "run al (\<lparr>mem = [3, 0, 3, 0, 104, c, 99], ip = 0, base = 0, halted = False\<rparr>,
                fifopush a (fifopush (word_of_int ph) (f, w)))
          = Some (Inr (\<lparr>mem = [a, 0, 3, 0, 104, c, 99], ip = 6, base = 0, halted = False\<rparr>,
                       f1, w))"
    and p: "fifopop (f1, w) = (c, f2, w)" and ok: "fifo_ok f2" "queued f2 = []"
    by blast
  from Cons.prems(1) have "\<forall>pv \<in> set pvs. snd pv =
             \<lparr>mem = [3, 0, 3, 0, 104, c, 99], ip = 0, base = 0, halted = False\<rparr>"
    by simp
  from Cons.IH [OF this ok, of c]
  obtain vs' f' where
    t: "first_round al pvs c (f2, w)
          = Some (Inr (if pvs = [] then c else c, vs', f', w))"
    and i: "length vs' = length pvs" "\<forall>v \<in> set vs'. length (mem v) = 7"
           "fifo_ok f'" "queued f' = []"
    by blast
  have "first_round al (pv # pvs) a (f, w)
          = Some (Inr (c, \<lparr>mem = [a, 0, 3, 0, 104, c, 99], ip = 6, base = 0,
                             halted = False\<rparr> # vs', f', w))"
    using t by (simp add: pv v r p)
  with i show ?case by simp
qed

lemma const_trial:
  assumes "length vms = 5" and "\<forall>v \<in> set vms. length (mem v) \<le> 7"
    and "fifo_ok f" and "queued f = []" and "length p = 5"
  shows "\<exists>vms' f'. trial (\<lambda>n. True) 1
                      \<lparr>mem = [3, 0, 3, 0, 104, c, 99], ip = 0, base = 0, halted = False\<rparr>
                      p (vms, f, w)
                    = Some (Inr (c, vms', f', w))
           \<and> length vms' = 5 \<and> (\<forall>v \<in> set vms'. length (mem v) \<le> 7)
           \<and> fifo_ok f' \<and> queued f' = []"
proof -
  let ?ref = "\<lparr>mem = [3, 0, 3, 0, 104, c, 99], ip = 0, base = 0, halted = False\<rparr>"
  have "\<forall>v \<in> set vms. length (mem v) \<le> length (mem ?ref)"
    using assms(2) by (simp add: eval_nat_numeral)
  moreover have "length (mem ?ref) < 2 ^ 61" by simp
  ultimately have "copy_all (\<lambda>n. True) vms ?ref
           = Inr (replicate (length vms)
                   \<lparr>mem = mem ?ref, ip = ip ?ref, base = base ?ref, halted = halted ?ref\<rparr>)"
    by (rule const_copy_all)
  then have c: "copy_all (\<lambda>n. True) vms ?ref = Inr (replicate 5 ?ref)"
    using assms(1) by simp
  have ne: "zip p (replicate 5 ?ref) \<noteq> []"
    using assms(5) by (cases p) simp_all
  have "\<forall>pv \<in> set (zip p (replicate 5 ?ref)). snd pv = ?ref"
    by (auto dest: set_zip_rightD)
  from const_first_round [OF this assms(3, 4), where al = "\<lambda>n. True" and a = 0 and w = w] ne
  obtain vs' f' where
    t: "first_round (\<lambda>n. True) (zip p (replicate 5 ?ref)) 0 (f, w)
          = Some (Inr (c, vs', f', w))"
    and i: "length vs' = length (zip p (replicate 5 ?ref))"
           "\<forall>v \<in> set vs'. length (mem v) = 7" "fifo_ok f'" "queued f' = []"
    by auto
  have "trial (\<lambda>n. True) 1 ?ref p (vms, f, w) = Some (Inr (c, vs', f', w))"
    by (simp add: trial_def c t)
  moreover have "length vs' = 5" using i(1) assms(5) by simp
  moreover have "\<forall>v \<in> set vs'. length (mem v) \<le> 7" using i(2) by simp
  ultimately show ?thesis using i(3, 4) by blast
qed

lemma const_trials:
  assumes "\<forall>p \<in> set ps. length p = 5"
    and "length vms = 5" and "\<forall>v \<in> set vms. length (mem v) \<le> 7"
    and "fifo_ok f" and "queued f = []"
  shows "\<exists>s'. trials (trial (\<lambda>n. True) 1
                   \<lparr>mem = [3, 0, 3, 0, 104, c, 99], ip = 0, base = 0, halted = False\<rparr>)
                 ps (vms, f, w)
               = Some (Inr (replicate (length ps) c, s'))"
  using assms
proof (induction ps arbitrary: vms f)
  case Nil
  then show ?case by simp
next
  case (Cons p ps)
  from Cons.prems(1) have lp: "length p = 5" and rest: "\<forall>p \<in> set ps. length p = 5"
    by simp_all
  from const_trial [OF Cons.prems(2, 3, 4, 5) lp, where w = w and c = c]
  obtain vms' f' where
    t: "trial (\<lambda>n. True) 1
          \<lparr>mem = [3, 0, 3, 0, 104, c, 99], ip = 0, base = 0, halted = False\<rparr>
          p (vms, f, w) = Some (Inr (c, vms', f', w))"
    and i: "length vms' = 5" "\<forall>v \<in> set vms'. length (mem v) \<le> 7"
           "fifo_ok f'" "queued f' = []"
    by blast
  from Cons.IH [OF rest i] obtain s' where
    "trials (trial (\<lambda>n. True) 1
          \<lparr>mem = [3, 0, 3, 0, 104, c, 99], ip = 0, base = 0, halted = False\<rparr>)
        ps (vms', f', w) = Some (Inr (replicate (length ps) c, s'))"
    by blast
  then have "trials (trial (\<lambda>n. True) 1
          \<lparr>mem = [3, 0, 3, 0, 104, c, 99], ip = 0, base = 0, halted = False\<rparr>)
        (p # ps) (vms, f, w) = Some (Inr (replicate (length (p # ps)) c, s'))"
    by (simp add: t)
  then show ?case by blast
qed

lemma length_shifted_members: "p \<in> set (shifted c) \<Longrightarrow> length p = 5"
  by (auto simp: shifted_def arrangements5_def)


text \<open>
  A program that reads its two inputs and a third number, which comes from the standard
  input as the queue is empty then, and puts out the product of the first and the
  third: a stage returns its phase times the next number of the standard input, or 0
  when no number is left there.
\<close>

lemma fed_stage:
  assumes "fifo_ok f" and "queued f = []" and "\<not> tty w"
  shows "\<exists>v' f' f''.
    run al (\<lparr>mem = [3, 13, 3, 14, 3, 15, 2, 13, 15, 16, 4, 16, 99, 0, 0, 0, 0],
              ip = 0, base = 0, halted = False\<rparr>,
            fifopush a (fifopush ph (f, w)))
      = Some (Inr (v', f', w\<lparr>stdin := tl (stdin w)\<rparr>))
    \<and> length (mem v') = 17
    \<and> fifopop (f', w\<lparr>stdin := tl (stdin w)\<rparr>)
        = (ph * (case stdin w of [] \<Rightarrow> 0 | x # _ \<Rightarrow> x), f'', w\<lparr>stdin := tl (stdin w)\<rparr>)
    \<and> fifo_ok f'' \<and> queued f'' = []"
proof -
  let ?x = "case stdin w of [] \<Rightarrow> 0 | x # _ \<Rightarrow> x"
  let ?w = "w\<lparr>stdin := tl (stdin w)\<rparr>"
  have small: "length (queued f) < FIFOSIZE - 1"
    using assms(2) by (simp add: FIFOSIZE_def)
  note p1 = fifopush_queued [OF assms(1) small, of ph w]
  obtain f1 where f1: "fifopush ph (f, w) = (f1, w)" "fifo_ok f1" "queued f1 = [ph]"
    using p1 assms(2) by (metis append_Nil)
  have "length (queued f1) < FIFOSIZE - 1" using f1(3) by (simp add: FIFOSIZE_def)
  note p2 = fifopush_queued [OF f1(2) this, of a w]
  obtain f2 where f2: "fifopush a (f1, w) = (f2, w)" "fifo_ok f2" "queued f2 = [ph, a]"
    using p2 f1(3) by (metis append_Cons append_Nil)
  note p3 = fifopop_queued [OF f2(2) f2(3), of w]
  obtain f3 where f3: "fifopop (f2, w) = (ph, f3, w)" "fifo_ok f3" "queued f3 = [a]"
    using p3 by blast
  note p4 = fifopop_queued [OF f3(2) f3(3), of w]
  obtain f4 where f4: "fifopop (f3, w) = (a, f4, w)" "fifo_ok f4" "queued f4 = []"
    using p4 by blast
  have "fifohead f4 = fifotail f4"
    using queued_Nil_iff [OF f4(2)] f4(3) by simp
  from fifopop_empty [OF this, of w] assms(3)
  have e: "fifopop (f4, w) = (?x, f4, ?w)"
    by (cases w) simp
  have "length (queued f4) < FIFOSIZE - 1" using f4(3) by (simp add: FIFOSIZE_def)
  note p5 = fifopush_queued [OF f4(2) this, of "ph * ?x" ?w]
  obtain f5 where f5: "fifopush (ph * ?x) (f4, ?w) = (f5, ?w)" "fifo_ok f5"
    "queued f5 = [ph * ?x]"
    using p5 f4(3) by (metis append_Nil)
  note p6 = fifopop_queued [OF f5(2) f5(3), of ?w]
  obtain f6 where f6: "fifopop (f5, ?w) = (ph * ?x, f6, ?w)" "fifo_ok f6" "queued f6 = []"
    using p6 by blast
  have "run al (\<lparr>mem = [3, 13, 3, 14, 3, 15, 2, 13, 15, 16, 4, 16, 99, 0, 0, 0, 0],
              ip = 0, base = 0, halted = False\<rparr>,
            fifopush a (fifopush ph (f, w)))
      = Some (Inr (\<lparr>mem = [3, 13, 3, 14, 3, 15, 2, 13, 15, 16, 4, 16, 99, ph, a, ?x, ph * ?x],
                     ip = 12, base = 0, halted = False\<rparr>, f5, ?w))"
    by (simp add: f1(1) f2(1) run.simps eval_cpu f3(1) f4(1) e f5(1))
  moreover have "length (mem \<lparr>mem = [3, 13, 3, 14, 3, 15, 2, 13, 15, 16, 4, 16, 99, ph, a, ?x,
                     ph * ?x], ip = 12, base = 0, halted = False\<rparr>) = 17"
    by simp
  ultimately show ?thesis using f6 by blast
qed

lemma fed_first_round:
  assumes "\<forall>pv \<in> set pvs. snd pv =
             \<lparr>mem = [3, 13, 3, 14, 3, 15, 2, 13, 15, 16, 4, 16, 99, 0, 0, 0, 0],
               ip = 0, base = 0, halted = False\<rparr>"
    and "fifo_ok f" and "queued f = []" and "\<not> tty w"
  shows "\<exists>vs' f'. first_round al pvs a (f, w)
                     = Some (Inr (if pvs = [] then a
                                  else word_of_int (fst (last pvs)) *
                                       (case drop (length pvs - 1) (stdin w) of
                                          [] \<Rightarrow> 0 | x # _ \<Rightarrow> x),
                                  vs', f', w\<lparr>stdin := drop (length pvs) (stdin w)\<rparr>))
           \<and> length vs' = length pvs \<and> (\<forall>v \<in> set vs'. length (mem v) = 17)
           \<and> fifo_ok f' \<and> queued f' = []"
  using assms
proof (induction pvs arbitrary: a f w)
  case Nil
  then show ?case by simp
next
  case (Cons pv pvs)
  let ?Q = "\<lparr>mem = [3, 13, 3, 14, 3, 15, 2, 13, 15, 16, 4, 16, 99, 0, 0, 0, 0],
             ip = 0, base = 0, halted = False\<rparr>"
  let ?x = "case stdin w of [] \<Rightarrow> 0 | x # _ \<Rightarrow> x"
  let ?w = "w\<lparr>stdin := tl (stdin w)\<rparr>"
  obtain ph v where pv: "pv = (ph, v)" by (cases pv)
  from Cons.prems(1) pv have v: "v = ?Q" by simp
  from fed_stage [OF Cons.prems(2, 3, 4), where al = al and a = a and ph = "word_of_int ph"]
  obtain v1 f1 f2 where
    r: "run al (?Q, fifopush a (fifopush (word_of_int ph) (f, w))) = Some (Inr (v1, f1, ?w))"
    and l: "length (mem v1) = 17"
    and p: "fifopop (f1, ?w) = (word_of_int ph * ?x, f2, ?w)"
    and ok: "fifo_ok f2" "queued f2 = []"
    by blast
  from Cons.prems(1) have rest: "\<forall>pv \<in> set pvs. snd pv = ?Q" by simp
  from Cons.prems(4) have nt: "\<not> tty ?w" by simp
  from Cons.IH [OF rest ok nt, of "word_of_int ph * ?x"]
  obtain vs' f' where
    t: "first_round al pvs (word_of_int ph * ?x) (f2, ?w)
          = Some (Inr (if pvs = [] then word_of_int ph * ?x
                       else word_of_int (fst (last pvs)) *
                            (case drop (length pvs - 1) (stdin ?w) of [] \<Rightarrow> 0 | x # _ \<Rightarrow> x),
                       vs', f', ?w\<lparr>stdin := drop (length pvs) (stdin ?w)\<rparr>))"
    and i: "length vs' = length pvs" "\<forall>v \<in> set vs'. length (mem v) = 17"
           "fifo_ok f'" "queued f' = []"
    by blast
  have d: "drop (length pvs - 1) (tl (stdin w)) = drop (length pvs) (stdin w)" if "pvs \<noteq> []"
  proof -
    from that have "length pvs = Suc (length pvs - 1)" by (cases pvs) simp_all
    then have "drop (length pvs) (stdin w) = drop (Suc (length pvs - 1)) (stdin w)" by simp
    then show ?thesis by (simp only: drop_Suc)
  qed
  have val: "(if pvs = [] then word_of_int ph * ?x
              else word_of_int (fst (last pvs)) *
                   (case drop (length pvs - 1) (stdin ?w) of [] \<Rightarrow> 0 | x # _ \<Rightarrow> x))
           = word_of_int (fst (last (pv # pvs))) *
               (case drop (length (pv # pvs) - 1) (stdin w) of [] \<Rightarrow> 0 | x # _ \<Rightarrow> x)"
    using d by (simp add: pv)
  have wld: "?w\<lparr>stdin := drop (length pvs) (stdin ?w)\<rparr>
           = w\<lparr>stdin := drop (length (pv # pvs)) (stdin w)\<rparr>"
    by (simp add: drop_Suc)
  have "first_round al (pv # pvs) a (f, w)
          = Some (Inr (word_of_int (fst (last (pv # pvs))) *
                         (case drop (length (pv # pvs) - 1) (stdin w) of [] \<Rightarrow> 0 | x # _ \<Rightarrow> x),
                       v1 # vs', f', w\<lparr>stdin := drop (length (pv # pvs)) (stdin w)\<rparr>))"
    using t unfolding val wld by (simp add: pv v r p)
  with i l show ?case by simp
qed

lemma fed_trial:
  assumes "length vms = 5" and "\<forall>v \<in> set vms. length (mem v) \<le> 17"
    and "fifo_ok f" and "queued f = []" and "\<not> tty w" and "length p = 5"
  shows "\<exists>vms' f'. trial (\<lambda>n. True) 1
                      \<lparr>mem = [3, 13, 3, 14, 3, 15, 2, 13, 15, 16, 4, 16, 99, 0, 0, 0, 0],
                        ip = 0, base = 0, halted = False\<rparr>
                      p (vms, f, w)
                    = Some (Inr (word_of_int (last p) *
                                   (case drop 4 (stdin w) of [] \<Rightarrow> 0 | x # _ \<Rightarrow> x),
                                 vms', f', w\<lparr>stdin := drop 5 (stdin w)\<rparr>))
           \<and> length vms' = 5 \<and> (\<forall>v \<in> set vms'. length (mem v) \<le> 17)
           \<and> fifo_ok f' \<and> queued f' = []"
proof -
  let ?ref = "\<lparr>mem = [3, 13, 3, 14, 3, 15, 2, 13, 15, 16, 4, 16, 99, 0, 0, 0, 0],
               ip = 0, base = 0, halted = False\<rparr>"
  let ?pvs = "zip p (replicate 5 ?ref)"
  have "\<forall>v \<in> set vms. length (mem v) \<le> length (mem ?ref)"
    using assms(2) by (simp add: eval_nat_numeral)
  moreover have "length (mem ?ref) < 2 ^ 61" by simp
  ultimately have "copy_all (\<lambda>n. True) vms ?ref
           = Inr (replicate (length vms)
                   \<lparr>mem = mem ?ref, ip = ip ?ref, base = base ?ref, halted = halted ?ref\<rparr>)"
    by (rule const_copy_all)
  then have c: "copy_all (\<lambda>n. True) vms ?ref = Inr (replicate 5 ?ref)"
    using assms(1) by simp
  have len: "length ?pvs = 5" using assms(6) by simp
  then have ne: "?pvs \<noteq> []" by auto
  have "last ?pvs = ?pvs ! 4" using len ne by (simp add: last_conv_nth)
  also have "\<dots> = (p ! 4, ?ref)" using assms(6) by simp
  also have "p ! 4 = last p" using assms(6) by (cases p) (auto simp: last_conv_nth)
  finally have lst: "fst (last ?pvs) = last p" by simp
  have "\<forall>pv \<in> set ?pvs. snd pv = ?ref"
    by (auto dest: set_zip_rightD)
  from fed_first_round [OF this assms(3, 4, 5), where al = "\<lambda>n. True" and a = 0]
  obtain vs' f' where
    t: "first_round (\<lambda>n. True) ?pvs 0 (f, w)
          = Some (Inr (word_of_int (last p) *
                         (case drop 4 (stdin w) of [] \<Rightarrow> 0 | x # _ \<Rightarrow> x),
                       vs', f', w\<lparr>stdin := drop 5 (stdin w)\<rparr>))"
    and i: "length vs' = length ?pvs"
           "\<forall>v \<in> set vs'. length (mem v) = 17" "fifo_ok f'" "queued f' = []"
    using ne len lst by auto
  have "trial (\<lambda>n. True) 1 ?ref p (vms, f, w)
          = Some (Inr (word_of_int (last p) *
                         (case drop 4 (stdin w) of [] \<Rightarrow> 0 | x # _ \<Rightarrow> x),
                       vs', f', w\<lparr>stdin := drop 5 (stdin w)\<rparr>))"
    by (simp add: trial_def c t)
  moreover have "length vs' = 5" using i(1) len by simp
  moreover have "\<forall>v \<in> set vs'. length (mem v) \<le> 17" using i(2) by simp
  ultimately show ?thesis using i(3, 4) by blast
qed

lemma fed_trials_exhausted:
  assumes "\<forall>p \<in> set ps. length p = 5"
    and "length vms = 5" and "\<forall>v \<in> set vms. length (mem v) \<le> 17"
    and "fifo_ok f" and "queued f = []" and "\<not> tty w" and "stdin w = []"
  shows "\<exists>s'. trials (trial (\<lambda>n. True) 1
                   \<lparr>mem = [3, 13, 3, 14, 3, 15, 2, 13, 15, 16, 4, 16, 99, 0, 0, 0, 0],
                     ip = 0, base = 0, halted = False\<rparr>)
                 ps (vms, f, w)
               = Some (Inr (map (\<lambda>p. 0) ps, s'))"
proof -
  let ?I = "\<lambda>(vms, f, w). length vms = 5 \<and> (\<forall>v \<in> set vms. length (mem v) \<le> 17)
              \<and> fifo_ok f \<and> queued f = [] \<and> \<not> tty w \<and> stdin w = []"
  let ?tr = "trial (\<lambda>n. True) 1
               \<lparr>mem = [3, 13, 3, 14, 3, 15, 2, 13, 15, 16, 4, 16, 99, 0, 0, 0, 0],
                 ip = 0, base = 0, halted = False\<rparr>"
  have I: "?I (vms, f, w)" using assms by simp
  have step: "\<exists>s1. ?tr p s0 = Some (Inr ((\<lambda>p. 0) p, s1)) \<and> ?I s1"
    if "?I s0" and "p \<in> set ps" for p s0
  proof -
    obtain vms0 f0 w0 where s0: "s0 = (vms0, f0, w0)" by (cases s0)
    from that(1) s0 have h: "length vms0 = 5" "\<forall>v \<in> set vms0. length (mem v) \<le> 17"
      "fifo_ok f0" "queued f0 = []" "\<not> tty w0" "stdin w0 = []"
      by simp_all
    from that(2) assms(1) have lp: "length p = 5" by simp
    have w0: "w0\<lparr>stdin := drop 5 (stdin w0)\<rparr> = w0"
      using h(6) by (cases w0) simp
    from fed_trial [OF h(1, 2, 3, 4, 5) lp] obtain vms' f' where
      "?tr p (vms0, f0, w0) = Some (Inr (0, vms', f', w0))"
      "length vms' = 5" "\<forall>v \<in> set vms'. length (mem v) \<le> 17" "fifo_ok f'" "queued f' = []"
      unfolding w0 using h(6) by auto
    then have "?tr p s0 = Some (Inr (0, (vms', f', w0))) \<and> ?I (vms', f', w0)"
      using s0 h(5, 6) by simp
    then show ?thesis by blast
  qed
  from trials_order_free [where I = ?I and tr = ?tr and g = "\<lambda>p. 0", OF I step]
  show ?thesis by blast
qed

lemma in_set_tl: "p \<in> set (tl xs) \<Longrightarrow> p \<in> set xs"
  by (cases xs) simp_all

text \<open>
  C5 as stated fails in two ways. On a program whose results are all below \<open>- 1\<close> (the
  constant program with \<open>c = - 5\<close> as the reference machine, five machines without
  memory, an empty queue), each of the 120 trials of part 1 delivers \<open>- 5\<close>, and the
  search returns \<open>- 1\<close>, which no trial delivered. And the value depends on the order:
  with the program above that multiplies its phase by a number of the standard input,
  and five numbers 1 there, only the first trial finds numbers; the search, which starts
  with the phases 0, 1, 2, 3, 4, returns 4, and the same trials taken in the opposite
  order, which starts with 4, 3, 2, 1, 0, have the maximum 0.
\<close>

theorem maxamp_below_floor_and_order_dependent:
  "map_option (map_sum id fst)
     (trials (trial (\<lambda>n. True) 1
                \<lparr>mem = [3, 0, 3, 0, 104, - 5, 99], ip = 0, base = 0, halted = False\<rparr>)
        (shifted 0)
        (replicate 5 \<lparr>mem = [], ip = 0, base = 0, halted = False\<rparr>, fifo_init,
         \<lparr>stdin = [], tty = False, stdout = []\<rparr>))
     = Some (Inr (replicate 120 (- 5)))
   \<and> map_option (map_sum id fst)
       (maxamp (\<lambda>n. True) 1
          \<lparr>mem = [3, 0, 3, 0, 104, - 5, 99], ip = 0, base = 0, halted = False\<rparr>
          (replicate 5 \<lparr>mem = [], ip = 0, base = 0, halted = False\<rparr>, fifo_init,
           \<lparr>stdin = [], tty = False, stdout = []\<rparr>))
     = Some (Inr (- 1))
   \<and> map_option (map_sum id fst)
       (maxamp (\<lambda>n. True) 1
          \<lparr>mem = [3, 13, 3, 14, 3, 15, 2, 13, 15, 16, 4, 16, 99, 0, 0, 0, 0],
            ip = 0, base = 0, halted = False\<rparr>
          (replicate 5 \<lparr>mem = [], ip = 0, base = 0, halted = False\<rparr>, fifo_init,
           \<lparr>stdin = [1, 1, 1, 1, 1], tty = False, stdout = []\<rparr>))
     = Some (Inr 4)
   \<and> map_option (map_sum id (\<lambda>r. reported (fst r)))
       (trials (trial (\<lambda>n. True) 1
                  \<lparr>mem = [3, 13, 3, 14, 3, 15, 2, 13, 15, 16, 4, 16, 99, 0, 0, 0, 0],
                    ip = 0, base = 0, halted = False\<rparr>)
          (rev (shifted 0))
          (replicate 5 \<lparr>mem = [], ip = 0, base = 0, halted = False\<rparr>, fifo_init,
           \<lparr>stdin = [1, 1, 1, 1, 1], tty = False, stdout = []\<rparr>))
     = Some (Inr 0)"
proof -
  let ?ref = "\<lparr>mem = [3, 0, 3, 0, 104, - 5, 99], ip = 0, base = 0, halted = False\<rparr>"
  let ?vms = "replicate 5 \<lparr>mem = [], ip = 0, base = 0, halted = False\<rparr>"
  let ?s = "(?vms, fifo_init, \<lparr>stdin = [], tty = False, stdout = []\<rparr>)"
  have "\<forall>p \<in> set (shifted 0). length p = 5"
    by (simp add: length_shifted_members)
  from const_trials [OF this _ _ fifo_init_ok queued_init,
      where vms = ?vms
        and w = "\<lparr>stdin = [], tty = False, stdout = []\<rparr>" and c = "- 5"]
  obtain s' where
    t: "trials (trial (\<lambda>n. True) 1 ?ref) (shifted 0) ?s
          = Some (Inr (replicate 120 (- 5), s'))"
    by (auto simp: length_shifted)
  have r: "reported (replicate 120 (- 5)) = - 1"
    by (simp add: reported_def)
  have m: "maxamp (\<lambda>n. True) 1 ?ref ?s = Some (Inr (- 1, s'))"
    unfolding maxamp_def using maxamp_trials [of "trial (\<lambda>n. True) 1 ?ref" 1 ?s]
    by (simp add: t r)
  let ?Q = "\<lparr>mem = [3, 13, 3, 14, 3, 15, 2, 13, 15, 16, 4, 16, 99, 0, 0, 0, 0],
             ip = 0, base = 0, halted = False\<rparr>"
  let ?tr = "trial (\<lambda>n. True) 1 ?Q"
  let ?w5 = "\<lparr>stdin = [1, 1, 1, 1, 1], tty = False, stdout = []\<rparr>"
  let ?w0 = "\<lparr>stdin = [], tty = False, stdout = []\<rparr>"
  have r4: "reported (4 # map (\<lambda>p. 0) qs) = 4" for qs :: "int list list"
    by (cases "qs = []") (simp_all add: reported_def)
  have r0: "reported (0 # map (\<lambda>p. 0) qs) = 0" for qs :: "int list list"
    by (cases "qs = []") (simp_all add: reported_def)
  have vm5: "length ?vms = 5" "\<forall>v \<in> set ?vms. length (mem v) \<le> 17" by simp_all
  have nt: "\<not> tty ?w5" by simp
  have w: "?w5\<lparr>stdin := drop 5 (stdin ?w5)\<rparr> = ?w0" by simp
  have first: "\<exists>vms' f'. ?tr [p0, p1, p2, p3, p4] (?vms, fifo_init, ?w5)
                    = Some (Inr (word_of_int p4, vms', f', ?w0))
           \<and> length vms' = 5 \<and> (\<forall>v \<in> set vms'. length (mem v) \<le> 17)
           \<and> fifo_ok f' \<and> queued f' = []" for p0 p1 p2 p3 p4
    using fed_trial [OF vm5 fifo_init_ok queued_init nt, of "[p0, p1, p2, p3, p4]"]
    unfolding w by simp
  have rest: "\<exists>s'. trials ?tr (tl ps) (vms', f', ?w0) = Some (Inr (map (\<lambda>p. 0) (tl ps), s'))"
    if "set ps = set (shifted 0)" "length vms' = 5" "\<forall>v \<in> set vms'. length (mem v) \<le> 17"
      "fifo_ok f'" "queued f' = []" for ps vms' f'
  proof -
    have "\<forall>p \<in> set (tl ps). length p = 5"
      using that(1) in_set_tl [of _ ps] length_shifted_members [of _ 0] by blast
    from fed_trials_exhausted [OF this that(2, 3, 4, 5), of ?w0] show ?thesis by simp
  qed
  have hd1: "shifted 0 = [0, 1, 2, 3, 4] # tl (shifted 0)"
    by (simp add: shifted_def arrangements5_def)
  have hd2: "rev (shifted 0) = [4, 3, 2, 1, 0] # tl (rev (shifted 0))"
    by (simp add: shifted_def arrangements5_def)
  from first [of 0 1 2 3 4] obtain vms1 f1 where
    t1: "?tr [0, 1, 2, 3, 4] (?vms, fifo_init, ?w5) = Some (Inr (4, vms1, f1, ?w0))"
    and i1: "length vms1 = 5" "\<forall>v \<in> set vms1. length (mem v) \<le> 17"
            "fifo_ok f1" "queued f1 = []"
    by auto
  from rest [OF refl i1] obtain s1 where
    "trials ?tr (tl (shifted 0)) (vms1, f1, ?w0)
       = Some (Inr (map (\<lambda>p. 0) (tl (shifted 0)), s1))"
    by blast
  then have "trials ?tr ([0, 1, 2, 3, 4] # tl (shifted 0)) (?vms, fifo_init, ?w5)
       = Some (Inr (4 # map (\<lambda>p. 0) (tl (shifted 0)), s1))"
    using t1 by simp
  then have lex: "trials ?tr (shifted 0) (?vms, fifo_init, ?w5)
       = Some (Inr (4 # map (\<lambda>p. 0) (tl (shifted 0)), s1))"
    using hd1 by simp
  have m4: "maxamp (\<lambda>n. True) 1 ?Q (?vms, fifo_init, ?w5) = Some (Inr (4, s1))"
    unfolding maxamp_def using maxamp_trials [of ?tr 1 "(?vms, fifo_init, ?w5)"]
    by (simp add: lex r4)
  from first [of 4 3 2 1 0] obtain vms2 f2 where
    t2: "?tr [4, 3, 2, 1, 0] (?vms, fifo_init, ?w5) = Some (Inr (0, vms2, f2, ?w0))"
    and i2: "length vms2 = 5" "\<forall>v \<in> set vms2. length (mem v) \<le> 17"
            "fifo_ok f2" "queued f2 = []"
    by auto
  have "set (rev (shifted 0)) = set (shifted 0)" by simp
  from rest [OF this i2] obtain s2 where
    "trials ?tr (tl (rev (shifted 0))) (vms2, f2, ?w0)
       = Some (Inr (map (\<lambda>p. 0) (tl (rev (shifted 0))), s2))"
    by blast
  then have "trials ?tr ([4, 3, 2, 1, 0] # tl (rev (shifted 0))) (?vms, fifo_init, ?w5)
       = Some (Inr (0 # map (\<lambda>p. 0) (tl (rev (shifted 0))), s2))"
    using t2 by simp
  then have opp: "trials ?tr (rev (shifted 0)) (?vms, fifo_init, ?w5)
       = Some (Inr (0 # map (\<lambda>p. 0) (tl (rev (shifted 0))), s2))"
    using hd2 by simp
  from t m m4 opp show ?thesis by (simp add: r0)
qed

theorem maxamp_tries_all_permutations_witness:
  "fst (next_perm (init_phase 1))
   \<and> map_option (map_sum id fst)
       (maxamp (\<lambda>n. True) 1
          \<lparr>mem = [3, 0, 3, 0, 104, 7, 99], ip = 0, base = 0, halted = False\<rparr>
          (replicate 5 \<lparr>mem = [], ip = 0, base = 0, halted = False\<rparr>, fifo_init,
           \<lparr>stdin = [], tty = False, stdout = []\<rparr>))
     = Some (Inr 7)
   \<and> reported [3, 7] = reported [7, 3, 7]
   \<and> map_option (map_sum id fst)
       (trials (trial (\<lambda>n. True) 1
                  \<lparr>mem = [3, 0, 3, 0, 104, 7, 99], ip = 0, base = 0, halted = False\<rparr>)
          (rev (shifted 0))
          (replicate 5 \<lparr>mem = [], ip = 0, base = 0, halted = False\<rparr>, fifo_init,
           \<lparr>stdin = [], tty = False, stdout = []\<rparr>))
     = Some (Inr (replicate 120 7))"
proof -
  let ?ref = "\<lparr>mem = [3, 0, 3, 0, 104, 7, 99], ip = 0, base = 0, halted = False\<rparr>"
  let ?s = "(replicate 5 \<lparr>mem = [], ip = 0, base = 0, halted = False\<rparr>, fifo_init,
             \<lparr>stdin = [], tty = False, stdout = []\<rparr>)"
  define J where "J = (\<lambda>(vms :: VirtualMachine list, f, w :: World).
              length vms = 5 \<and> (\<forall>v \<in> set vms. length (mem v) \<le> 7)
              \<and> fifo_ok f \<and> queued f = [])"
  from maxamp_tries_all_permutations [where part = 1 and al = "\<lambda>n. True" and ref = ?ref
      and s = ?s and I = J and g = "\<lambda>p. 7" and code = "[]"
      and t = "([], \<lparr>stdin = [], tty = False, stdout = []\<rparr>)"]
  obtain ps where len: "length ps = 120" and h: "hd ps = init_phase 1"
    and mem: "set ps = {p. distinct p \<and> set p = set (init_phase 1)}"
    and nxt: "\<forall>i. Suc i < length ps \<longrightarrow> next_perm (ps ! i) = (True, ps ! Suc i)"
    and m: "maxamp (\<lambda>n. True) 1 ?ref ?s =
              (case trials (trial (\<lambda>n. True) 1 ?ref) ps ?s of
                 None \<Rightarrow> None
               | Some (Inl e) \<Rightarrow> Some (Inl e)
               | Some (Inr (as, s')) \<Rightarrow> Some (Inr (reported as, s')))"
    and inv: "\<forall>as bs :: int64 list. set as = set bs \<longrightarrow> reported as = reported bs"
    and ord: "J ?s \<and> (\<forall>p s0. J s0 \<and> p \<in> set ps \<longrightarrow>
                 (\<exists>s1. trial (\<lambda>n. True) 1 ?ref p s0 = Some (Inr (7, s1)) \<and> J s1)) \<longrightarrow>
          (\<forall>qs. set qs = set ps \<longrightarrow>
             (\<exists>s1. trials (trial (\<lambda>n. True) 1 ?ref) qs ?s
                     = Some (Inr (map (\<lambda>p. 7) qs, s1)) \<and> J s1)
             \<and> reported (map (\<lambda>p. 7) qs) = reported (map (\<lambda>p. 7) ps))"
    by blast
  from len have "ps \<noteq> []" by auto
  then have "ps ! 0 = hd ps" by (simp add: hd_conv_nth)
  moreover from nxt len have "next_perm (ps ! 0) = (True, ps ! Suc 0)" by simp
  ultimately have a: "fst (next_perm (init_phase 1))" using h by simp
  have l5: "\<forall>p \<in> set ps. length p = 5"
  proof
    fix p assume "p \<in> set ps"
    with mem have "distinct p" and "set p = set (init_phase 1)" by simp_all
    then have "length p = card (set (init_phase 1))" by (simp add: distinct_card [symmetric])
    then show "length p = 5" by (simp add: init_phase_eq)
  qed
  from const_trials [OF this _ _ fifo_init_ok queued_init,
      where vms = "replicate 5 \<lparr>mem = [], ip = 0, base = 0, halted = False\<rparr>"
        and w = "\<lparr>stdin = [], tty = False, stdout = []\<rparr>" and c = 7]
  obtain s' where
    t: "trials (trial (\<lambda>n. True) 1 ?ref) ps ?s = Some (Inr (replicate 120 7, s'))"
    by (auto simp: len)
  have r: "reported (replicate 120 7) = 7"
    by (simp add: reported_def)
  have b: "map_option (map_sum id fst) (maxamp (\<lambda>n. True) 1 ?ref ?s) = Some (Inr 7)"
    by (simp add: m t r)
  have "set [3, 7 :: int64] = set [7, 3, 7]" by auto
  with inv have c: "reported [3, 7] = reported [7, 3, 7]" by blast
  have I0: "J ?s" by (simp add: J_def fifo_init_ok queued_init)
  have stp: "\<forall>p s0. J s0 \<and> p \<in> set ps \<longrightarrow>
                 (\<exists>s1. trial (\<lambda>n. True) 1 ?ref p s0 = Some (Inr (7, s1)) \<and> J s1)"
  proof (intro allI impI)
    fix p s0
    assume hyp: "J s0 \<and> p \<in> set ps"
    obtain vms0 f0 w0 where s0: "s0 = (vms0, f0, w0)" by (cases s0)
    from hyp s0 have i: "length vms0 = 5" "\<forall>v \<in> set vms0. length (mem v) \<le> 7"
      "fifo_ok f0" "queued f0 = []"
      by (simp_all add: J_def)
    from hyp l5 have lp: "length p = 5" by blast
    from const_trial [OF i lp, where w = w0 and c = 7] obtain vms' f' where
      "trial (\<lambda>n. True) 1 ?ref p (vms0, f0, w0) = Some (Inr (7, vms', f', w0))"
      "length vms' = 5" "\<forall>v \<in> set vms'. length (mem v) \<le> 7" "fifo_ok f'" "queued f' = []"
      by blast
    then have "trial (\<lambda>n. True) 1 ?ref p s0 = Some (Inr (7, (vms', f', w0)))
               \<and> J (vms', f', w0)"
      using s0 by (simp add: J_def)
    then show "\<exists>s1. trial (\<lambda>n. True) 1 ?ref p s0 = Some (Inr (7, s1)) \<and> J s1"
      by blast
  qed
  have "set (rev (shifted 0)) = set ps"
    using mem by (simp add: set_shifted init_phase_eq)
  with ord I0 stp obtain s1 where
    "trials (trial (\<lambda>n. True) 1 ?ref) (rev (shifted 0)) ?s
       = Some (Inr (map (\<lambda>p. 7) (rev (shifted 0)), s1))"
    by blast
  then have d: "map_option (map_sum id fst)
       (trials (trial (\<lambda>n. True) 1 ?ref) (rev (shifted 0)) ?s)
     = Some (Inr (replicate 120 7))"
    by (simp add: map_replicate_const length_shifted)
  from a b c d show ?thesis by blast
qed

section \<open>The feedback loop\<close>












text \<open>A run that returns with the instance not halted has just put out a value.\<close>

lemma amp_run_put_out:
  assumes "amp_run v iv w = Some (Inr (val, v', w'))" and "\<not> halted v'"
  shows "\<exists>s e'. amp_step iv s = Inr (Some val, v', e', w')"
proof -
  let ?P = "\<lambda>(s :: AmpMachine \<times> bool \<times> World) (y :: AmpFault + int64 \<times> AmpMachine \<times> World).
              \<forall>val v' w'. y = Inr (val, v', w') \<longrightarrow> \<not> halted v' \<longrightarrow>
                (\<exists>s e'. amp_step iv s = Inr (Some val, v', e', w'))"
  from assms(1) have "amp_loop iv (v, False, w) = Some (Inr (val, v', w'))"
    by (simp add: amp_run_def)
  then have "?P (v, False, w) (Inr (val, v', w'))"
  proof (induction rule: amp_loop_induct)
    case (Halted pvm e w)
    then show ?case by simp
  next
    case (Fault s x)
    then show ?case by simp
  next
    case (Return s val pvm' e' w')
    then show ?case by (cases s) auto
  next
    case (Step s s' y)
    then show ?case by simp
  qed
  with assms(2) show ?thesis by simp
qed

lemma run_put_out:
  assumes "run al s = Some (Inr (v', fw'))" and "\<not> halted v'"
  shows "\<exists>s1. step al s1 = Inr (True, v', fw')"
proof -
  let ?P = "\<lambda>(s :: VirtualMachine \<times> Fifo \<times> World) (y :: ErrCode + VirtualMachine \<times> Fifo \<times> World).
              \<forall>v' fw'. y = Inr (v', fw') \<longrightarrow> \<not> halted v' \<longrightarrow>
                (\<exists>s1. step al s1 = Inr (True, v', fw'))"
  from assms(1) have "?P s (Inr (v', fw'))"
  proof (induction rule: run_induct)
    case (Halted s)
    then show ?case by auto
  next
    case (Fault s x)
    then show ?case by simp
  next
    case (Return s s')
    then show ?case by (cases s) auto
  next
    case (Step s s' y)
    then show ?case by simp
  qed
  with assms(2) show ?thesis by (cases fw') auto
qed


section \<open>The feedback loop on two programs\<close>









end
